theory Spec2Isabelle
  imports Main "HOL-Library.Char_ord" "HOL-Library.List_Lexorder" "HOL-Library.AList"
begin

section \<open>Python values\<close>

text \<open>
  The records handled by the cache are Python dictionaries with string keys. The values
  that occur under those keys are \<open>None\<close>, numbers and strings. Millisecond clock
  readings (\<open>current_time_ms()\<close>, a float in the source) are modelled as integers.
\<close>

datatype pyval = PNone | PInt int | PStr string

datatype error = TypeError | IndexError | KeyError | ValueError

type_synonym bbo_update = "string \<rightharpoonup> pyval"

text \<open>Truthiness, as used by \<open>not symbol\<close>, \<open>not timestamp\<close> and \<open>if exchange_time\<close>.\<close>

fun truthy :: "pyval \<Rightarrow> bool" where
  "truthy PNone = False"
| "truthy (PInt i) = (i \<noteq> 0)"
| "truthy (PStr s) = (s \<noteq> [])"

text \<open>
  The ordering operators: two numbers compare numerically, two strings
  lexicographically, and every other pairing raises \<open>TypeError\<close>.
\<close>

fun py_lt :: "pyval \<Rightarrow> pyval \<Rightarrow> error + bool" where
  "py_lt (PInt a) (PInt b) = Inr (a < b)"
| "py_lt (PStr a) (PStr b) = Inr (a < b)"
| "py_lt _ _ = Inl TypeError"

fun py_ge :: "pyval \<Rightarrow> pyval \<Rightarrow> error + bool" where
  "py_ge (PInt a) (PInt b) = Inr (a \<ge> b)"
| "py_ge (PStr a) (PStr b) = Inr (a \<ge> b)"
| "py_ge _ _ = Inl TypeError"

text \<open>
  \<open>int(v)\<close>: the identity on a number, \<open>TypeError\<close> on \<open>None\<close>, and on a string the
  decimal literal it spells, \<open>ValueError\<close> otherwise. A string is a list of 8-bit
  characters, the code points below 256. The literal is an optional sign and digits
  with single underscores between them, with blanks around it. The blanks \<open>int\<close>
  skips are the ASCII ones, tab to carriage return (9 to 13) and the space (32), and,
  as the string is first transformed with every other Unicode space replaced by a
  space, the next-line character (133) and the no-break space (160). The separators
  28 to 31 are below 127, are left as they are, and are not skipped. A literal of
  more than 4300 digits is refused (the interpreter's default limit).
\<close>

definition is_digit :: "char \<Rightarrow> bool" where
  "is_digit c = (CHR ''0'' \<le> c \<and> c \<le> CHR ''9'')"

definition is_space :: "char \<Rightarrow> bool" where
  "is_space c =
     (let n = (of_char c :: nat) in (9 \<le> n \<and> n \<le> 13) \<or> n = 32 \<or> n = 133 \<or> n = 160)"

fun digits_value :: "nat \<Rightarrow> string \<Rightarrow> nat option" where
  "digits_value acc [] = None"
| "digits_value acc [c] = (if is_digit c then Some (10 * acc + (of_char c - 48)) else None)"
| "digits_value acc (c # d # cs) =
     (if is_digit c then
        (if d = CHR ''_'' then digits_value (10 * acc + (of_char c - 48)) cs
         else digits_value (10 * acc + (of_char c - 48)) (d # cs))
      else None)"

definition max_str_digits :: nat where
  "max_str_digits = 4300"

definition literal_value :: "string \<Rightarrow> nat option" where
  "literal_value cs =
     (if length (filter is_digit cs) > max_str_digits then None else digits_value 0 cs)"

definition int_of_string :: "string \<Rightarrow> int option" where
  "int_of_string s =
     (let t = rev (dropWhile is_space (rev (dropWhile is_space s))) in
      case t of
        [] \<Rightarrow> None
      | c # cs \<Rightarrow>
          if c = CHR ''-'' then map_option (\<lambda>n. - int n) (literal_value cs)
          else if c = CHR ''+'' then map_option int (literal_value cs)
          else map_option int (literal_value t))"

fun py_int :: "pyval \<Rightarrow> error + pyval" where
  "py_int (PInt i) = Inr (PInt i)"
| "py_int PNone = Inl TypeError"
| "py_int (PStr s) = (case int_of_string s of None \<Rightarrow> Inl ValueError | Some i \<Rightarrow> Inr (PInt i))"

subsection \<open>Slices and list insertion\<close>

text \<open>\<open>xs[i:]\<close> for any integer \<open>i\<close>: a negative start counts from the end, and both
  ends are clamped to the list.\<close>

definition py_slice_from :: "int \<Rightarrow> 'a list \<Rightarrow> 'a list" where
  "py_slice_from i xs =
     (let n = int (length xs);
          j = (if i < 0 then max 0 (n + i) else min i n)
      in drop (nat j) xs)"

text \<open>\<open>xs[a:b]\<close> for indices \<open>a, b \<ge> 0\<close>; empty when \<open>b \<le> a\<close>.\<close>

definition py_slice :: "nat \<Rightarrow> nat \<Rightarrow> 'a list \<Rightarrow> 'a list" where
  "py_slice a b xs = take (b - a) (drop a xs)"

text \<open>\<open>xs.insert(i, x)\<close> for \<open>i \<ge> 0\<close>; an index past the end appends.\<close>

definition list_insert :: "nat \<Rightarrow> 'a \<Rightarrow> 'a list \<Rightarrow> 'a list" where
  "list_insert i x xs = take i xs @ x # drop i xs"

subsection \<open>The \<open>bisect\<close> module\<close>

text \<open>
  \<open>bisect_left\<close> and \<open>bisect_right\<close> are the standard library's binary searches:
  \<^verbatim>\<open>
  while lo < hi:
      mid = (lo + hi) // 2
      if a[mid] < x: lo = mid + 1      # bisect_right: if x < a[mid]: hi = mid
      else: hi = mid                   #               else: lo = mid + 1
  return lo
  \<close>
  They are called with \<open>lo = 0\<close> and \<open>hi = len(a)\<close>, so \<open>a[mid]\<close> is always in range.
  A comparison that raises ends the search with that error.
\<close>

function bisect_left_loop :: "pyval list \<Rightarrow> pyval \<Rightarrow> nat \<Rightarrow> nat \<Rightarrow> error + nat" where
  "bisect_left_loop a x lo hi =
     (if lo < hi then
        (let mid = (lo + hi) div 2 in
         case py_lt (a ! mid) x of
           Inl e \<Rightarrow> Inl e
         | Inr lt \<Rightarrow> if lt then bisect_left_loop a x (mid + 1) hi
                     else bisect_left_loop a x lo mid)
      else Inr lo)"
  by pat_completeness auto
termination
  by (relation "measure (\<lambda>(a, x, lo, hi). hi - lo)") auto

function bisect_right_loop :: "pyval list \<Rightarrow> pyval \<Rightarrow> nat \<Rightarrow> nat \<Rightarrow> error + nat" where
  "bisect_right_loop a x lo hi =
     (if lo < hi then
        (let mid = (lo + hi) div 2 in
         case py_lt x (a ! mid) of
           Inl e \<Rightarrow> Inl e
         | Inr lt \<Rightarrow> if lt then bisect_right_loop a x lo mid
                     else bisect_right_loop a x (mid + 1) hi)
      else Inr lo)"
  by pat_completeness auto
termination
  by (relation "measure (\<lambda>(a, x, lo, hi). hi - lo)") auto

definition bisect_left :: "pyval list \<Rightarrow> pyval \<Rightarrow> error + nat" where
  "bisect_left a x = bisect_left_loop a x 0 (length a)"

definition bisect_right :: "pyval list \<Rightarrow> pyval \<Rightarrow> error + nat" where
  "bisect_right a x = bisect_right_loop a x 0 (length a)"

section \<open>The cache: \<open>cache/bbo_cache.py\<close>\<close>

text \<open>
  \<open>BBOCache\<close> keeps three \<open>defaultdict\<close>s keyed by symbol: the series of records
  (\<open>_updates\<close>), the parallel index of their timestamps (\<open>_timestamps\<close>) and the latency
  samples (\<open>_latency_stats\<close>). \<open>_updates\<close> is the dictionary whose keys are iterated, so
  it is an association list in insertion order; the other two are maps. The type \<open>'r\<close>
  is what a series holds for a record: the dictionary itself when records are treated
  as values, or the address of the dictionary object when sharing matters.
  Persistence to disk is off (the default, \<open>persist_to_disk = False\<close>) and is not
  part of the model.
\<close>

record 'r bbo_cache =
  updates :: "(pyval \<times> 'r list) list"
  timestamps :: "pyval \<rightharpoonup> pyval list"
  latency_stats :: "pyval \<rightharpoonup> (pyval \<times> pyval) list"
  max_items :: int
  insert_count :: int

definition BBOCache :: "int \<Rightarrow> 'r bbo_cache" where
  "BBOCache max_items_per_symbol =
     \<lparr>updates = [], timestamps = Map.empty, latency_stats = Map.empty,
      max_items = max_items_per_symbol, insert_count = 0\<rparr>"

text \<open>Reading \<open>d[k]\<close> from a \<open>defaultdict(list)\<close>: a missing key reads as the empty list.\<close>

definition dd_get :: "('k \<rightharpoonup> 'v list) \<Rightarrow> 'k \<Rightarrow> 'v list" where
  "dd_get m k = (case m k of None \<Rightarrow> [] | Some v \<Rightarrow> v)"

text \<open>Lines 116-120 and 124-128 of \<open>add_update\<close>: append the sample, and drop the first
  one when the list has grown past the capacity.\<close>

definition store_latency :: "'r bbo_cache \<Rightarrow> pyval \<Rightarrow> pyval \<Rightarrow> pyval \<Rightarrow> 'r bbo_cache" where
  "store_latency c symbol timestamp latency =
     (let ls = dd_get (latency_stats c) symbol @ [(timestamp, latency)];
          ls' = (if int (length ls) > max_items c then tl ls else ls)
      in c\<lparr>latency_stats := (latency_stats c)(symbol \<mapsto> ls')\<rparr>)"

text \<open>
  \<open>_insert_update\<close>, in its three steps. Each returns the cache as the step leaves it
  together with the exception it raised, if any: the caller of \<open>add_update\<close> catches
  exceptions and carries on with the cache as it then is.
\<close>

text \<open>Lines 153-156: create the entries of a new symbol.\<close>

definition ensure_symbol :: "'r bbo_cache \<Rightarrow> pyval \<Rightarrow> 'r bbo_cache" where
  "ensure_symbol c symbol =
     (if map_of (updates c) symbol = None
      then c\<lparr>updates := AList.update symbol [] (updates c),
             timestamps := (timestamps c)(symbol \<mapsto> [])\<rparr>
      else c)"

text \<open>Lines 159-161: at capacity, \<open>popleft()\<close> the series and \<open>pop(0)\<close> the index. Either
  raises \<open>IndexError\<close> on an empty sequence. Runs after \<open>ensure_symbol\<close>.\<close>

definition evict_oldest :: "'r bbo_cache \<Rightarrow> pyval \<Rightarrow> 'r bbo_cache \<times> error option" where
  "evict_oldest c symbol =
     (let us = dd_get (map_of (updates c)) symbol in
      if int (length us) \<ge> max_items c then
        (case us of
           [] \<Rightarrow> (c, Some IndexError)
         | u # us' \<Rightarrow>
             (let c' = c\<lparr>updates := AList.update symbol us' (updates c)\<rparr> in
              case dd_get (timestamps c') symbol of
                [] \<Rightarrow> (c'\<lparr>timestamps := (timestamps c')(symbol \<mapsto> [])\<rparr>, Some IndexError)
              | t # ts' \<Rightarrow> (c'\<lparr>timestamps := (timestamps c')(symbol \<mapsto> ts')\<rparr>, None)))
      else (c, None))"

text \<open>Lines 164-174: append when the index is empty or the timestamp is not below its
  last entry, else insert at the position \<open>bisect_left\<close> finds.\<close>

definition place_update ::
  "'r bbo_cache \<Rightarrow> pyval \<Rightarrow> pyval \<Rightarrow> 'r \<Rightarrow> 'r bbo_cache \<times> error option" where
  "place_update c symbol timestamp item =
     (let ts = dd_get (timestamps c) symbol;
          us = dd_get (map_of (updates c)) symbol;
          c' = c\<lparr>timestamps := (timestamps c)(symbol \<mapsto> ts)\<rparr>
      in case (if ts = [] then Inr True else py_ge timestamp (last ts)) of
           Inl e \<Rightarrow> (c', Some e)
         | Inr at_end \<Rightarrow>
             if at_end then
               (c'\<lparr>updates := AList.update symbol (us @ [item]) (updates c'),
                   timestamps := (timestamps c')(symbol \<mapsto> ts @ [timestamp])\<rparr>, None)
             else
               (case bisect_left ts timestamp of
                  Inl e \<Rightarrow> (c', Some e)
                | Inr idx \<Rightarrow>
                    (c'\<lparr>updates := AList.update symbol (list_insert idx item us) (updates c'),
                        timestamps := (timestamps c')(symbol \<mapsto> list_insert idx timestamp ts)\<rparr>,
                     None)))"

definition insert_update ::
  "'r bbo_cache \<Rightarrow> pyval \<Rightarrow> pyval \<Rightarrow> 'r \<Rightarrow> 'r bbo_cache \<times> error option" where
  "insert_update c symbol timestamp item =
     (case evict_oldest (ensure_symbol c symbol) symbol of
        (c', Some e) \<Rightarrow> (c', Some e)
      | (c', None) \<Rightarrow> place_update c' symbol timestamp item)"

text \<open>
  \<open>add_update\<close> changes the dictionary it is given in place before storing it.
  Lines 77-89 give it a \<open>timestamp\<close> when it has none.
\<close>

definition resolve_timestamp :: "int \<Rightarrow> bbo_update \<Rightarrow> error + bbo_update" where
  "resolve_timestamp now u =
     (if u ''timestamp'' = None then
        (case u ''exchange_time'' of
           Some v \<Rightarrow> Inr (u(''timestamp'' \<mapsto> v))
         | None \<Rightarrow>
             (case u ''received_timestamp'' of
                Some v \<Rightarrow>
                  (case py_int v of
                     Inl e \<Rightarrow> Inl e
                   | Inr i \<Rightarrow> Inr (u(''timestamp'' \<mapsto> i)))
              | None \<Rightarrow> Inr (u(''timestamp'' \<mapsto> PInt now))))
      else Inr u)"

text \<open>Lines 94-104: a snake-case field fills in its camel-case name when that is absent.\<close>

definition field_mappings :: "(string \<times> string) list" where
  "field_mappings =
     [(''bid_price'', ''bidPrice''), (''bid_qty'', ''bidQty''),
      (''ask_price'', ''askPrice''), (''ask_qty'', ''askQty'')]"

definition convert_fields :: "bbo_update \<Rightarrow> bbo_update" where
  "convert_fields u =
     fold (\<lambda>(snake_case, camel_case) d.
             if d snake_case \<noteq> None \<and> d camel_case = None
             then d(camel_case := d snake_case) else d)
          field_mappings u"

definition required_fields :: "string list" where
  "required_fields = [''bidPrice'', ''bidQty'', ''askPrice'', ''askQty'']"

definition missing_fields :: "bbo_update \<Rightarrow> string list" where
  "missing_fields u = filter (\<lambda>field. u field = None) required_fields"

text \<open>Lines 113-128: the latency sample, from \<open>backendLatency\<close> or else from a
  \<open>latency\<close> that is not \<open>None\<close>.\<close>

definition record_latency :: "'r bbo_cache \<Rightarrow> pyval \<Rightarrow> pyval \<Rightarrow> bbo_update \<Rightarrow> 'r bbo_cache" where
  "record_latency c symbol timestamp u =
     (case u ''backendLatency'' of
        Some latency \<Rightarrow> store_latency c symbol timestamp latency
      | None \<Rightarrow>
          (case u ''latency'' of
             Some latency \<Rightarrow>
               if latency \<noteq> PNone then store_latency c symbol timestamp latency else c
           | None \<Rightarrow> c))"

text \<open>
  \<open>add_update\<close>. The argument \<open>ref\<close> says what is put into the series for the
  dictionary: the source stores the very object it was given. The result is the
  dictionary as \<open>add_update\<close> leaves it, the cache, and the exception raised, if any.
\<close>

definition add_update_as ::
  "(bbo_update \<Rightarrow> 'r) \<Rightarrow> int \<Rightarrow> 'r bbo_cache \<Rightarrow> bbo_update
     \<Rightarrow> bbo_update \<times> 'r bbo_cache \<times> error option" where
  "add_update_as ref now c u =
     (case u ''symbol'' of
        None \<Rightarrow> (u, c, None)
      | Some symbol \<Rightarrow>
          (case resolve_timestamp now u of
             Inl e \<Rightarrow> (u, c, Some e)
           | Inr u1 \<Rightarrow>
               (let timestamp = the (u1 ''timestamp'');
                    u2 = convert_fields u1
                in if missing_fields u2 \<noteq> [] then (u2, c, None)
                   else
                     (case insert_update (record_latency c symbol timestamp u2)
                             symbol timestamp (ref u2) of
                        (c', Some e) \<Rightarrow> (u2, c', Some e)
                      | (c', None) \<Rightarrow>
                          (u2, c'\<lparr>insert_count := insert_count c' + 1\<rparr>, None)))))"

text \<open>Records as values: the series holds the dictionary as it is when stored.\<close>

definition add_update :: "int \<Rightarrow> bbo_update bbo_cache \<Rightarrow> bbo_update \<Rightarrow> bbo_update bbo_cache" where
  "add_update now c u = fst (snd (add_update_as (\<lambda>d. d) now c u))"

text \<open>
  \<open>get_updates\<close>. A bound is absent or a value; an error is a comparison that
  raised inside \<open>bisect\<close>.
\<close>

definition get_updates ::
  "'r bbo_cache \<Rightarrow> pyval \<Rightarrow> pyval option \<Rightarrow> pyval option \<Rightarrow> int option
     \<Rightarrow> error + 'r list" where
  "get_updates c symbol start_time end_time limit =
     (case map_of (updates c) symbol of
        None \<Rightarrow> Inr []
      | Some us \<Rightarrow>
          if start_time = None \<and> end_time = None then
            (case limit of
               None \<Rightarrow> Inr us
             | Some l \<Rightarrow> Inr (py_slice_from (- l) us))
          else
            (let ts = dd_get (timestamps c) symbol in
             case (case start_time of
                     None \<Rightarrow> Inr 0
                   | Some s \<Rightarrow> bisect_left ts s) of
               Inl e \<Rightarrow> Inl e
             | Inr start_idx \<Rightarrow>
                 (case (case end_time of
                          None \<Rightarrow> Inr (length ts)
                        | Some e \<Rightarrow> bisect_right ts e) of
                    Inl e \<Rightarrow> Inl e
                  | Inr end_idx \<Rightarrow>
                      (let result = py_slice start_idx end_idx us in
                       Inr (case limit of
                              None \<Rightarrow> result
                            | Some l \<Rightarrow>
                                if int (length result) > l
                                then py_slice_from (- l) result else result)))))"

text \<open>
  \<open>clear_old_data\<close>. The body of its loop, for one symbol (lines 351-364): nothing
  for an empty index; otherwise the first \<open>idx\<close> entries of series and index go, and
  only when \<open>idx > 0\<close> are the latency samples filtered as well.
\<close>

fun filter_latency :: "int \<Rightarrow> (pyval \<times> pyval) list \<Rightarrow> error + (pyval \<times> pyval) list" where
  "filter_latency cutoff_time [] = Inr []"
| "filter_latency cutoff_time ((ts, lat) # rest) =
     (case py_ge ts (PInt cutoff_time) of
        Inl e \<Rightarrow> Inl e
      | Inr keep \<Rightarrow>
          (case filter_latency cutoff_time rest of
             Inl e \<Rightarrow> Inl e
           | Inr rest' \<Rightarrow> Inr (if keep then (ts, lat) # rest' else rest')))"

definition clear_symbol :: "int \<Rightarrow> 'r bbo_cache \<Rightarrow> pyval \<Rightarrow> 'r bbo_cache \<times> error option" where
  "clear_symbol cutoff_time c symbol =
     (let ts = dd_get (timestamps c) symbol;
          c0 = c\<lparr>timestamps := (timestamps c)(symbol \<mapsto> ts)\<rparr>
      in if ts = [] then (c0, None)
         else
           (case bisect_left ts (PInt cutoff_time) of
              Inl e \<Rightarrow> (c0, Some e)
            | Inr idx \<Rightarrow>
                if idx > 0 then
                  (let c1 = c0\<lparr>updates :=
                                 AList.update symbol
                                   (drop idx (dd_get (map_of (updates c0)) symbol)) (updates c0),
                               timestamps := (timestamps c0)(symbol \<mapsto> drop idx ts)\<rparr>
                   in case latency_stats c1 symbol of
                        None \<Rightarrow> (c1, None)
                      | Some ls \<Rightarrow>
                          (case filter_latency cutoff_time ls of
                             Inl e \<Rightarrow> (c1, Some e)
                           | Inr ls' \<Rightarrow>
                               (c1\<lparr>latency_stats := (latency_stats c1)(symbol \<mapsto> ls')\<rparr>,
                                None)))
                else (c0, None)))"

fun clear_symbols :: "int \<Rightarrow> 'r bbo_cache \<Rightarrow> pyval list \<Rightarrow> 'r bbo_cache \<times> error option" where
  "clear_symbols cutoff_time c [] = (c, None)"
| "clear_symbols cutoff_time c (symbol # rest) =
     (case clear_symbol cutoff_time c symbol of
        (c', Some e) \<Rightarrow> (c', Some e)
      | (c', None) \<Rightarrow> clear_symbols cutoff_time c' rest)"

definition clear_old_data :: "int \<Rightarrow> int \<Rightarrow> 'r bbo_cache \<Rightarrow> 'r bbo_cache \<times> error option" where
  "clear_old_data now max_age_ms c =
     clear_symbols (now - max_age_ms) c (map fst (updates c))"

section \<open>The cache manager: \<open>cache/cache_manager.py\<close>\<close>

text \<open>\<open>d.get(k)\<close>: \<open>None\<close> for a missing key.\<close>

definition dict_get :: "bbo_update \<Rightarrow> string \<Rightarrow> pyval" where
  "dict_get u k = (case u k of None \<Rightarrow> PNone | Some v \<Rightarrow> v)"

text \<open>\<open>contains_update\<close>; an exception inside it is caught and answers \<open>False\<close>.\<close>

definition contains_update :: "'r bbo_cache \<Rightarrow> bbo_update \<Rightarrow> bool" where
  "contains_update c u =
     (let symbol = dict_get u ''symbol'';
          timestamp = dict_get u ''timestamp''
      in if \<not> truthy symbol \<or> \<not> truthy timestamp then False
         else
           (case timestamps c symbol of
              None \<Rightarrow> False
            | Some ts \<Rightarrow>
                if ts = [] then False
                else
                  (case bisect_left ts timestamp of
                     Inl e \<Rightarrow> False
                   | Inr idx \<Rightarrow> idx < length ts \<and> ts ! idx = timestamp)))"

record cache_manager =
  cache :: "bbo_update bbo_cache"
  running :: bool

definition CacheManager :: "int \<Rightarrow> cache_manager" where
  "CacheManager max_items_per_symbol =
     \<lparr>cache = BBOCache max_items_per_symbol, running = False\<rparr>"

text \<open>\<open>start\<close> marks the manager as running; the clean-up thread it spawns and the
  loading of persisted files are not part of the model.\<close>

definition start :: "cache_manager \<Rightarrow> cache_manager" where
  "start m = (if running m then m else m\<lparr>running := True\<rparr>)"

text \<open>\<open>process_bbo_update\<close>: the duplicate check comes first, on the record as it was
  handed over; an exception of \<open>add_update\<close> is caught and logged.\<close>

definition process_bbo_update :: "int \<Rightarrow> cache_manager \<Rightarrow> bbo_update \<Rightarrow> cache_manager" where
  "process_bbo_update now m u =
     (let m1 = (if \<not> running m then start m else m)
      in if contains_update (cache m1) u then m1
         else m1\<lparr>cache := add_update now (cache m1) u\<rparr>)"

section \<open>Records as shared objects\<close>

text \<open>
  A series holds the dictionary objects themselves. Where that matters the objects
  live in a store and the series holds their addresses. \<open>add_update\<close> changes the
  object in place and stores its address.
\<close>

type_synonym addr = nat

type_synonym heap = "addr \<rightharpoonup> bbo_update"

definition add_update_obj :: "int \<Rightarrow> heap \<times> addr bbo_cache \<Rightarrow> addr \<Rightarrow> heap \<times> addr bbo_cache" where
  "add_update_obj now hc a =
     (case fst hc a of
        None \<Rightarrow> hc
      | Some u \<Rightarrow>
          (case add_update_as (\<lambda>d. a) now (snd hc) u of
             (u', c', e) \<Rightarrow> ((fst hc)(a \<mapsto> u'), c')))"

text \<open>Reading the records a query returned.\<close>

definition deref :: "heap \<Rightarrow> addr list \<Rightarrow> bbo_update list" where
  "deref h as = map (\<lambda>a. case h a of None \<Rightarrow> Map.empty | Some u \<Rightarrow> u) as"

text \<open>
  \<open>BBOHistoryAPI.get_updates\<close> in \<open>cache/rest_api.py\<close>. The query parameters are
  strings or absent. After the query, lines 116-120 write a \<open>timestamp_formatted\<close>
  field into every returned record that has a \<open>timestamp\<close>. The date formatting is
  the parameter \<open>fmt\<close>. An exception anywhere gives the error response.
\<close>

datatype response = BadRequest | ServerError error | Success "bbo_update list"

fun format_timestamps ::
  "(pyval \<Rightarrow> error + pyval) \<Rightarrow> heap \<Rightarrow> addr list \<Rightarrow> heap \<times> error option" where
  "format_timestamps fmt h [] = (h, None)"
| "format_timestamps fmt h (a # as) =
     (case h a of
        None \<Rightarrow> format_timestamps fmt h as
      | Some u \<Rightarrow>
          (case u ''timestamp'' of
             None \<Rightarrow> format_timestamps fmt h as
           | Some t \<Rightarrow>
               (case fmt t of
                  Inl e \<Rightarrow> (h, Some e)
                | Inr s \<Rightarrow>
                    format_timestamps fmt (h(a \<mapsto> u(''timestamp_formatted'' \<mapsto> s))) as)))"

definition parse_arg :: "string option \<Rightarrow> int \<Rightarrow> error + int" where
  "parse_arg arg dflt =
     (case arg of
        None \<Rightarrow> Inr dflt
      | Some s \<Rightarrow>
          if s = [] then Inr dflt
          else (case int_of_string s of None \<Rightarrow> Inl ValueError | Some i \<Rightarrow> Inr i))"

text \<open>\<open>end_time\<close> has no default: absent it stays \<open>None\<close>, and empty it stays the
  empty string.\<close>

definition parse_end :: "string option \<Rightarrow> error + pyval option" where
  "parse_end arg =
     (case arg of
        None \<Rightarrow> Inr None
      | Some s \<Rightarrow>
          if s = [] then Inr (Some (PStr []))
          else (case int_of_string s of
                  None \<Rightarrow> Inl ValueError
                | Some i \<Rightarrow> Inr (Some (PInt i))))"

definition api_get_updates ::
  "(pyval \<Rightarrow> error + pyval) \<Rightarrow> int \<Rightarrow> heap \<Rightarrow> addr bbo_cache
     \<Rightarrow> string option \<Rightarrow> string option \<Rightarrow> string option \<Rightarrow> string option
     \<Rightarrow> heap \<times> response" where
  "api_get_updates fmt now h c symbol start_time end_time limit =
     (case symbol of
        None \<Rightarrow> (h, BadRequest)
      | Some symb \<Rightarrow>
          if symb = [] then (h, BadRequest)
          else
            (case parse_arg start_time (now - 3600000) of
               Inl e \<Rightarrow> (h, ServerError e)
             | Inr st \<Rightarrow>
                 (case parse_end end_time of
                    Inl e \<Rightarrow> (h, ServerError e)
                  | Inr en \<Rightarrow>
                      (case parse_arg limit 10000000 of
                         Inl e \<Rightarrow> (h, ServerError e)
                       | Inr lim \<Rightarrow>
                           (case get_updates c (PStr symb) (Some (PInt st)) en (Some lim) of
                              Inl e \<Rightarrow> (h, ServerError e)
                            | Inr refs \<Rightarrow>
                                (case format_timestamps fmt h refs of
                                   (h', Some e) \<Rightarrow> (h', ServerError e)
                                 | (h', None) \<Rightarrow> (h', Success (deref h' refs))))))))"

section \<open>Well-formed series\<close>

text \<open>
  What the proofs say about a cache. \<open>series\<close> and \<open>stamps\<close> read the series and
  the index of a symbol the way the \<open>defaultdict\<close>s do. A series is well formed
  (\<open>series_ok\<close>) when its index holds integers in non-decreasing order and is as long
  as the series; \<open>records_match\<close> says that the index holds the \<open>timestamp\<close> fields of
  the records, in order. \<open>admission\<close> is what \<open>add_update\<close> has in hand when it reaches
  the cache: the symbol, the timestamp and the record as changed in place; it is
  \<open>None\<close> when \<open>add_update\<close> returns or raises before that. \<open>int_stamped\<close> holds of a
  call that is rejected or whose timestamp is an integer. \<open>blocked\<close> is the one case
  in which \<open>_insert_update\<close> raises on a well-formed series (nothing to evict, capacity
  not positive); \<open>evicted\<close> drops the head of a list at capacity; \<open>insert_pos\<close> is
  the position lines 164-174 choose.
\<close>

fun is_int :: "pyval \<Rightarrow> bool" where
  "is_int (PInt i) = True"
| "is_int _ = False"

fun int_val :: "pyval \<Rightarrow> int" where
  "int_val (PInt i) = i"
| "int_val _ = 0"

definition series :: "'r bbo_cache \<Rightarrow> pyval \<Rightarrow> 'r list" where
  "series c symbol = dd_get (map_of (updates c)) symbol"

definition stamps :: "'r bbo_cache \<Rightarrow> pyval \<Rightarrow> pyval list" where
  "stamps c symbol = dd_get (timestamps c) symbol"

definition series_ok :: "'r bbo_cache \<Rightarrow> pyval \<Rightarrow> bool" where
  "series_ok c symbol =
     (list_all is_int (stamps c symbol) \<and> sorted (map int_val (stamps c symbol))
      \<and> length (series c symbol) = length (stamps c symbol))"

definition insert_pos :: "pyval list \<Rightarrow> int \<Rightarrow> nat" where
  "insert_pos ts x =
     (if ts = [] \<or> int_val (last ts) \<le> x then length ts
      else length (filter (\<lambda>t. int_val t < x) ts))"

definition admission :: "int \<Rightarrow> bbo_update \<Rightarrow> (pyval \<times> pyval \<times> bbo_update) option" where
  "admission now u =
     (case u ''symbol'' of
        None \<Rightarrow> None
      | Some symbol \<Rightarrow>
          (case resolve_timestamp now u of
             Inl e \<Rightarrow> None
           | Inr u1 \<Rightarrow>
               if missing_fields (convert_fields u1) \<noteq> [] then None
               else Some (symbol, dict_get u1 ''timestamp'', convert_fields u1)))"

definition int_stamped :: "int \<Rightarrow> bbo_update \<Rightarrow> bool" where
  "int_stamped now u =
     (case admission now u of None \<Rightarrow> True | Some (symbol, timestamp, u') \<Rightarrow> is_int timestamp)"

definition records_match :: "bbo_update bbo_cache \<Rightarrow> pyval \<Rightarrow> bool" where
  "records_match c symbol =
     (map (\<lambda>u. dict_get u ''timestamp'') (series c symbol) = stamps c symbol)"

fun add_updates :: "bbo_update bbo_cache \<Rightarrow> (int \<times> bbo_update) list \<Rightarrow> bbo_update bbo_cache" where
  "add_updates c [] = c"
| "add_updates c ((now, u) # calls) = add_updates (add_update now c u) calls"

definition blocked :: "'r bbo_cache \<Rightarrow> pyval \<Rightarrow> bool" where
  "blocked c symbol = (max_items c \<le> int (length (series c symbol)) \<and> series c symbol = [])"

definition evicted :: "int \<Rightarrow> 'a list \<Rightarrow> 'a list" where
  "evicted cap xs = (if cap \<le> int (length xs) then tl xs else xs)"

text \<open>The integer timestamp of a record.\<close>

definition stamp_of :: "bbo_update \<Rightarrow> int" where
  "stamp_of u = int_val (dict_get u ''timestamp'')"

text \<open>
  A call that \<open>add_update\<close> accepts for the given symbol with an integer timestamp,
  and the record such a call stores.
\<close>

definition admitted_for :: "pyval \<Rightarrow> int \<times> bbo_update \<Rightarrow> bool" where
  "admitted_for symbol call =
     (case admission (fst call) (snd call) of
        None \<Rightarrow> False
      | Some (s, t, u') \<Rightarrow> s = symbol \<and> is_int t)"

definition stored_record :: "int \<times> bbo_update \<Rightarrow> bbo_update" where
  "stored_record call =
     (case admission (fst call) (snd call) of
        None \<Rightarrow> snd call
      | Some (s, t, u') \<Rightarrow> u')"

text \<open>
  The timestamp of a record as the specification resolves it: the \<open>timestamp\<close> field,
  else the exchange time, else the receive time as an integer, else the clock.
\<close>

definition spec_timestamp :: "int \<Rightarrow> bbo_update \<Rightarrow> error + pyval" where
  "spec_timestamp now u =
     (case u ''timestamp'' of
        Some v \<Rightarrow> Inr v
      | None \<Rightarrow>
          (case u ''exchange_time'' of
             Some v \<Rightarrow> Inr v
           | None \<Rightarrow>
               (case u ''received_timestamp'' of
                  Some v \<Rightarrow> py_int v
                | None \<Rightarrow> Inr (PInt now))))"

text \<open>A record without a \<open>timestamp\<close> field, carrying the exchange time instead.\<close>

definition untimed_tick :: "int \<Rightarrow> bbo_update" where
  "untimed_tick t =
     [''symbol'' \<mapsto> PStr ''BTCUSDT'', ''exchange_time'' \<mapsto> PInt t,
      ''bidPrice'' \<mapsto> PStr ''50000.10'', ''bidQty'' \<mapsto> PStr ''1.5'',
      ''askPrice'' \<mapsto> PStr ''50000.20'', ''askQty'' \<mapsto> PStr ''0.7'']"

text \<open>A record without a \<open>timestamp\<close> and without an exchange time, carrying the
  receive time, as a number or as a string.\<close>

definition received_tick :: "pyval \<Rightarrow> bbo_update" where
  "received_tick v =
     [''symbol'' \<mapsto> PStr ''BTCUSDT'', ''received_timestamp'' \<mapsto> v,
      ''bidPrice'' \<mapsto> PStr ''50000.10'', ''bidQty'' \<mapsto> PStr ''1.5'',
      ''askPrice'' \<mapsto> PStr ''50000.20'', ''askQty'' \<mapsto> PStr ''0.7'']"

section \<open>Latency: \<open>message_processor.py\<close> and \<open>web/message_queue.py\<close>\<close>

text \<open>\<open>d.get(k, default)\<close> and the subtraction of two numbers.\<close>

definition dict_get_or :: "bbo_update \<Rightarrow> string \<Rightarrow> pyval \<Rightarrow> pyval" where
  "dict_get_or u k d = (case u k of None \<Rightarrow> d | Some v \<Rightarrow> v)"

fun py_sub :: "pyval \<Rightarrow> pyval \<Rightarrow> error + pyval" where
  "py_sub (PInt a) (PInt b) = Inr (PInt (a - b))"
| "py_sub _ _ = Inl TypeError"

text \<open>
  \<open>MessageProcessor._process_bbo_update\<close>, as far as the record it builds: it then
  hands that record to the cache manager and to the queue. The latency is attached
  whenever the event time \<open>E\<close> is truthy.
\<close>

definition MessageProcessor_process_bbo_update ::
  "string \<Rightarrow> bbo_update \<Rightarrow> int \<Rightarrow> error + bbo_update" where
  "MessageProcessor_process_bbo_update self_symbol data0 received_timestamp =
     (let exchange_time = dict_get data0 ''E'';
          data1 = data0(''received_timestamp'' \<mapsto> PInt received_timestamp)
      in case (if truthy exchange_time
               then (case py_sub (PInt received_timestamp) exchange_time of
                       Inl e \<Rightarrow> Inl e
                     | Inr latency \<Rightarrow> Inr (data1(''latency'' \<mapsto> latency)))
               else Inr data1) of
           Inl e \<Rightarrow> Inl e
         | Inr data \<Rightarrow>
             Inr [''symbol'' \<mapsto> dict_get_or data ''s'' (PStr self_symbol),
                  ''bid_price'' \<mapsto> dict_get_or data ''b'' (PInt 0),
                  ''bid_qty'' \<mapsto> dict_get_or data ''B'' (PInt 0),
                  ''ask_price'' \<mapsto> dict_get_or data ''a'' (PInt 0),
                  ''ask_qty'' \<mapsto> dict_get_or data ''A'' (PInt 0),
                  ''exchange_time'' \<mapsto> exchange_time,
                  ''received_timestamp'' \<mapsto> PInt received_timestamp,
                  ''latency'' \<mapsto> dict_get data ''latency'',
                  ''bidPrice'' \<mapsto> dict_get_or data ''b'' (PInt 0),
                  ''bidQty'' \<mapsto> dict_get_or data ''B'' (PInt 0),
                  ''askPrice'' \<mapsto> dict_get_or data ''a'' (PInt 0),
                  ''askQty'' \<mapsto> dict_get_or data ''A'' (PInt 0),
                  ''timestamp'' \<mapsto> (if truthy exchange_time then exchange_time
                                      else PInt received_timestamp)])"

text \<open>
  \<open>MessageProcessor._handle_bbo_data\<close>, as far as the record it puts on the queue.
  \<open>float(...)\<close> and the subtraction of two floats are the parameters \<open>pyfloat\<close> and
  \<open>fsub\<close>. Lines 123-141 give the exchange time and the latency.
\<close>

definition float_field ::
  "(pyval \<Rightarrow> error + pyval) \<Rightarrow> bbo_update \<Rightarrow> string \<Rightarrow> error + pyval" where
  "float_field pyfloat data k = (case data k of None \<Rightarrow> Inl KeyError | Some v \<Rightarrow> pyfloat v)"

definition exchange_latency :: "bbo_update \<Rightarrow> int \<Rightarrow> error + pyval \<times> pyval" where
  "exchange_latency data received_timestamp =
     (case data ''E'' of
        Some ev \<Rightarrow>
          (case py_int ev of
             Inl e \<Rightarrow> Inl e
           | Inr exchange_time \<Rightarrow>
               (case py_sub (PInt received_timestamp) exchange_time of
                  Inl e \<Rightarrow> Inl e
                | Inr calculated_latency \<Rightarrow>
                    (case py_lt calculated_latency (PInt 10000) of
                       Inl e \<Rightarrow> Inl e
                     | Inr reasonable \<Rightarrow>
                         Inr (exchange_time,
                              if reasonable then calculated_latency else PNone))))
      | None \<Rightarrow> Inr (PInt received_timestamp, PNone))"

definition MessageProcessor_handle_bbo_data ::
  "(pyval \<Rightarrow> error + pyval) \<Rightarrow> (pyval \<Rightarrow> pyval \<Rightarrow> pyval) \<Rightarrow> string \<Rightarrow> bbo_update \<Rightarrow> int
     \<Rightarrow> error + bbo_update" where
  "MessageProcessor_handle_bbo_data pyfloat fsub self_symbol data received_timestamp =
     (case float_field pyfloat data ''b'' of
        Inl e \<Rightarrow> Inl e
      | Inr bid_price \<Rightarrow>
     (case float_field pyfloat data ''B'' of
        Inl e \<Rightarrow> Inl e
      | Inr bid_qty \<Rightarrow>
     (case float_field pyfloat data ''a'' of
        Inl e \<Rightarrow> Inl e
      | Inr ask_price \<Rightarrow>
     (case float_field pyfloat data ''A'' of
        Inl e \<Rightarrow> Inl e
      | Inr ask_qty \<Rightarrow>
     (case exchange_latency data received_timestamp of
        Inl e \<Rightarrow> Inl e
      | Inr (exchange_time, latency_ms) \<Rightarrow>
          Inr [''symbol'' \<mapsto> PStr self_symbol,
               ''bid_price'' \<mapsto> bid_price, ''bid_qty'' \<mapsto> bid_qty,
               ''ask_price'' \<mapsto> ask_price, ''ask_qty'' \<mapsto> ask_qty,
               ''spread'' \<mapsto> fsub ask_price bid_price,
               ''latency'' \<mapsto> latency_ms,
               ''exchange_time'' \<mapsto> exchange_time,
               ''received_timestamp'' \<mapsto> PInt received_timestamp])))))"

text \<open>
  The queue processor turns a dictionary message into the broadcast shape (lines
  145-217 of \<open>_process_message_queue\<close>). \<open>str(...)\<close> is the parameter \<open>pystr\<close>. Lines
  156-167 and 187-198 compute a latency from an event time in the same way.
\<close>

definition calculate_latency :: "pyval \<Rightarrow> bbo_update \<Rightarrow> int \<Rightarrow> error + pyval" where
  "calculate_latency event_time message process_time =
     (case py_int event_time of
        Inl e \<Rightarrow> Inl e
      | Inr exchange_time \<Rightarrow>
          (let received_time = dict_get_or message ''received_timestamp'' (PInt process_time)
           in case py_sub received_time exchange_time of
                Inl e \<Rightarrow> Inl e
              | Inr calculated_latency \<Rightarrow>
                  (case py_lt calculated_latency (PInt 10000) of
                     Inl e \<Rightarrow> Inl e
                   | Inr reasonable \<Rightarrow>
                       Inr (if reasonable then calculated_latency else PNone))))"

definition format_message :: "(pyval \<Rightarrow> pyval) \<Rightarrow> int \<Rightarrow> bbo_update \<Rightarrow> error + bbo_update" where
  "format_message pystr process_time message =
     (case (if message ''bid_price'' \<noteq> None \<and> message ''ask_price'' \<noteq> None then
              (case (if dict_get message ''latency'' \<noteq> PNone
                     then Inr (dict_get message ''latency'')
                     else if dict_get message ''exchange_time'' \<noteq> PNone
                     then calculate_latency (dict_get message ''exchange_time'') message
                            process_time
                     else Inr PNone) of
                 Inl e \<Rightarrow> Inl e
               | Inr backendLatency \<Rightarrow>
                   Inr [''symbol'' \<mapsto> dict_get_or message ''symbol'' (PStr ''UNKNOWN''),
                        ''bidPrice'' \<mapsto> pystr (dict_get_or message ''bid_price'' (PStr ''0.00'')),
                        ''bidQty'' \<mapsto> pystr (dict_get_or message ''bid_qty'' (PStr ''0.0000'')),
                        ''askPrice'' \<mapsto> pystr (dict_get_or message ''ask_price'' (PStr ''0.00'')),
                        ''askQty'' \<mapsto> pystr (dict_get_or message ''ask_qty'' (PStr ''0.0000'')),
                        ''timestamp'' \<mapsto> dict_get_or message ''exchange_time'' (PInt process_time),
                        ''serverTimestamp'' \<mapsto> PInt process_time,
                        ''backendLatency'' \<mapsto> backendLatency])
            else
              (case (if dict_get message ''E'' \<noteq> PNone
                     then calculate_latency (dict_get message ''E'') message process_time
                     else Inr PNone) of
                 Inl e \<Rightarrow> Inl e
               | Inr backendLatency \<Rightarrow>
                   Inr [''symbol'' \<mapsto> dict_get_or message ''s'' (PStr ''UNKNOWN''),
                        ''bidPrice'' \<mapsto> dict_get_or message ''b'' (PStr ''0.00''),
                        ''bidQty'' \<mapsto> dict_get_or message ''B'' (PStr ''0.0000''),
                        ''askPrice'' \<mapsto> dict_get_or message ''a'' (PStr ''0.00''),
                        ''askQty'' \<mapsto> dict_get_or message ''A'' (PStr ''0.0000''),
                        ''timestamp'' \<mapsto> dict_get_or message ''E'' (PInt process_time),
                        ''serverTimestamp'' \<mapsto> PInt process_time,
                        ''backendLatency'' \<mapsto> backendLatency])) of
        Inl e \<Rightarrow> Inl e
      | Inr formatted_data \<Rightarrow>
          Inr (if formatted_data ''timestamp'' = Some PNone
               then formatted_data(''timestamp'' \<mapsto> PInt process_time)
               else formatted_data))"

text \<open>A raw message without a symbol, the kind \<open>_handle_bbo_data\<close> receives.\<close>

definition raw_bbo :: "int \<Rightarrow> bbo_update" where
  "raw_bbo e =
     [''b'' \<mapsto> PStr ''50000.10'', ''B'' \<mapsto> PStr ''1.5'',
      ''a'' \<mapsto> PStr ''50000.20'', ''A'' \<mapsto> PStr ''0.7'', ''E'' \<mapsto> PInt e]"

text \<open>The date formatting used in the examples: every timestamp reads the same.\<close>

definition fmt_example :: "pyval \<Rightarrow> error + pyval" where
  "fmt_example t = Inr (PStr ''19700101 00:00:01.000'')"

text \<open>Two stores that hold the same objects with the same fields, the field
  \<open>timestamp_formatted\<close> apart.\<close>

definition same_but_formatted :: "heap \<Rightarrow> heap \<Rightarrow> bool" where
  "same_but_formatted h h' =
     (\<forall>a. (h' a = None) = (h a = None)
          \<and> (\<forall>k. k \<noteq> ''timestamp_formatted'' \<longrightarrow>
                 map_option (\<lambda>u. u k) (h' a) = map_option (\<lambda>u. u k) (h a)))"

section \<open>The dispatch loop: \<open>web/message_queue.py\<close>\<close>

text \<open>
  A queued message is a 2-tuple of an event type and data (a dictionary or something
  else), a dictionary, or anything else. The processor's state is its queue with the
  count of unfinished tasks the queue keeps, the throttle fields, the latest data and,
  standing for the sink, the payloads passed to \<open>socketio.emit\<close> in order. The clock
  readings of a loop iteration are arguments.
\<close>

datatype message = Event pyval "bbo_update option" | Dict bbo_update | Other

record queue_processor =
  message_queue :: "message list"
  unfinished_tasks :: int
  is_running :: bool
  last_message_time :: int
  throttle_interval :: int
  throttled_message :: "bbo_update option"
  latest_data :: bbo_update
  emitted :: "bbo_update list"

definition MessageQueueProcessor :: queue_processor where
  "MessageQueueProcessor =
     \<lparr>message_queue = [], unfinished_tasks = 0, is_running = False, last_message_time = 0,
      throttle_interval = 100, throttled_message = None, latest_data = Map.empty,
      emitted = []\<rparr>"

text \<open>\<open>start\<close> sets the flag the loop runs under; the thread it spawns is the loop
  below.\<close>

definition MessageQueueProcessor_start :: "queue_processor \<Rightarrow> queue_processor" where
  "MessageQueueProcessor_start q = (if \<not> is_running q then q\<lparr>is_running := True\<rparr> else q)"

text \<open>\<open>broadcast_message\<close> puts the message on the queue.\<close>

definition broadcast_message :: "queue_processor \<Rightarrow> message \<Rightarrow> queue_processor" where
  "broadcast_message q data =
     q\<lparr>message_queue := message_queue q @ [data],
       unfinished_tasks := unfinished_tasks q + 1\<rparr>"

text \<open>\<open>Queue.task_done\<close> raises \<open>ValueError\<close> when no task is unfinished.\<close>

definition task_done :: "queue_processor \<Rightarrow> queue_processor \<times> error option" where
  "task_done q =
     (if unfinished_tasks q \<le> 0 then (q, Some ValueError)
      else (q\<lparr>unfinished_tasks := unfinished_tasks q - 1\<rparr>, None))"

fun task_done_times :: "nat \<Rightarrow> queue_processor \<Rightarrow> queue_processor \<times> error option" where
  "task_done_times 0 q = (q, None)"
| "task_done_times (Suc n) q =
     (case task_done q of
        (q', Some e) \<Rightarrow> (q', Some e)
      | (q', None) \<Rightarrow> task_done_times n q')"

text \<open>Lines 121-246, the body of the loop over the batch, for one message.\<close>

definition handle_message ::
  "(pyval \<Rightarrow> pyval) \<Rightarrow> int \<Rightarrow> int \<Rightarrow> int \<Rightarrow> nat \<Rightarrow> queue_processor \<Rightarrow> message
     \<Rightarrow> queue_processor \<times> error option" where
  "handle_message pystr process_time current_time time_since_last_message batch_len q message =
     (case message of
        Event event_type data \<Rightarrow>
          (case (if event_type = PStr ''bbo_update'' then data else None) of
             Some formatted_data \<Rightarrow>
               task_done_times batch_len
                 (q\<lparr>latest_data := formatted_data,
                    emitted := emitted q @ [formatted_data]\<rparr>)
           | None \<Rightarrow> task_done q)
      | Dict m \<Rightarrow>
          (case format_message pystr process_time m of
             Inl e \<Rightarrow> (q, Some e)
           | Inr formatted_data \<Rightarrow>
               task_done
                 (if time_since_last_message \<ge> throttle_interval q
                  then q\<lparr>latest_data := formatted_data,
                         last_message_time := current_time,
                         emitted := emitted q @ [formatted_data],
                         throttled_message := None\<rparr>
                  else q\<lparr>latest_data := formatted_data,
                         throttled_message := Some formatted_data\<rparr>))
      | Other \<Rightarrow> task_done q)"

fun handle_messages ::
  "(pyval \<Rightarrow> pyval) \<Rightarrow> int \<Rightarrow> int \<Rightarrow> int \<Rightarrow> nat \<Rightarrow> queue_processor \<Rightarrow> message list
     \<Rightarrow> queue_processor \<times> error option" where
  "handle_messages pystr process_time current_time since batch_len q [] = (q, None)"
| "handle_messages pystr process_time current_time since batch_len q (message # rest) =
     (case handle_message pystr process_time current_time since batch_len q message of
        (q', Some e) \<Rightarrow> (q', Some e)
      | (q', None) \<Rightarrow> handle_messages pystr process_time current_time since batch_len q' rest)"

text \<open>Lines 249-262: after the batch, a pending throttled message is sent when the
  interval has passed.\<close>

definition flush_throttled :: "int \<Rightarrow> queue_processor \<Rightarrow> queue_processor" where
  "flush_throttled current_time q =
     (case throttled_message q of
        None \<Rightarrow> q
      | Some m \<Rightarrow>
          if current_time - last_message_time q \<ge> throttle_interval q
          then q\<lparr>last_message_time := current_time,
                 emitted := emitted q @ [m],
                 throttled_message := None\<rparr>
          else q)"

text \<open>Lines 264-274: after an exception, \<open>task_done\<close> once per message of the batch,
  its own exceptions ignored.\<close>

fun task_done_ignoring :: "nat \<Rightarrow> queue_processor \<Rightarrow> queue_processor" where
  "task_done_ignoring 0 q = q"
| "task_done_ignoring (Suc n) q = task_done_ignoring n (fst (task_done q))"

text \<open>
  One iteration of the \<open>while self.is_running\<close> loop. The batch is the first message
  and up to four more that are queued. With an empty queue \<open>get\<close> times out and the
  iteration ends there. \<open>time_since_last_message\<close> is computed once, before the batch.
  The three clock readings are those of lines 93, 117 and 250.
\<close>

definition process_iteration ::
  "(pyval \<Rightarrow> pyval) \<Rightarrow> int \<Rightarrow> int \<Rightarrow> int \<Rightarrow> queue_processor \<Rightarrow> queue_processor" where
  "process_iteration pystr process_time current_time flush_time q =
     (if \<not> is_running q \<or> message_queue q = [] then q
      else
        (let messages_to_process = take 5 (message_queue q);
             q1 = q\<lparr>message_queue := drop 5 (message_queue q)\<rparr>;
             time_since_last_message = current_time - last_message_time q1
         in case handle_messages pystr process_time current_time time_since_last_message
                   (length messages_to_process) q1 messages_to_process of
              (q2, Some e) \<Rightarrow> task_done_ignoring (length messages_to_process) q2
            | (q2, None) \<Rightarrow> flush_throttled flush_time q2))"

text \<open>A run of the processor: messages are enqueued and the loop iterates, each
  iteration with its three clock readings.\<close>

datatype event = Enqueue message | Iterate int int int

fun run :: "(pyval \<Rightarrow> pyval) \<Rightarrow> queue_processor \<Rightarrow> event list \<Rightarrow> queue_processor" where
  "run pystr q [] = q"
| "run pystr q (Enqueue m # events) = run pystr (broadcast_message q m) events"
| "run pystr q (Iterate t1 t2 t3 # events) = run pystr (process_iteration pystr t1 t2 t3 q) events"

text \<open>A message as \<open>MessageProcessor\<close> queues it, and what the dispatch loop sends for
  it when it is processed at time \<open>p\<close>.\<close>

definition quote_msg :: "int \<Rightarrow> bbo_update" where
  "quote_msg t =
     [''symbol'' \<mapsto> PStr ''BTCUSDT'',
      ''bid_price'' \<mapsto> PStr ''50000.10'', ''bid_qty'' \<mapsto> PStr ''1.5'',
      ''ask_price'' \<mapsto> PStr ''50000.20'', ''ask_qty'' \<mapsto> PStr ''0.7'',
      ''exchange_time'' \<mapsto> PInt t, ''received_timestamp'' \<mapsto> PInt (t + 3),
      ''latency'' \<mapsto> PInt 3]"

definition quote_sent :: "int \<Rightarrow> int \<Rightarrow> bbo_update" where
  "quote_sent t p =
     [''symbol'' \<mapsto> PStr ''BTCUSDT'',
      ''bidPrice'' \<mapsto> PStr ''50000.10'', ''bidQty'' \<mapsto> PStr ''1.5'',
      ''askPrice'' \<mapsto> PStr ''50000.20'', ''askQty'' \<mapsto> PStr ''0.7'',
      ''timestamp'' \<mapsto> PInt t, ''serverTimestamp'' \<mapsto> PInt p,
      ''backendLatency'' \<mapsto> PInt 3]"


section \<open>Example records\<close>

text \<open>A well-formed record for \<open>BTCUSDT\<close>, in the shape \<open>test_cache.py\<close> generates.\<close>

definition tick :: "int \<Rightarrow> bbo_update" where
  "tick t =
     [''symbol'' \<mapsto> PStr ''BTCUSDT'', ''timestamp'' \<mapsto> PInt t,
      ''bidPrice'' \<mapsto> PStr ''50000.10'', ''bidQty'' \<mapsto> PStr ''1.5'',
      ''askPrice'' \<mapsto> PStr ''50000.20'', ''askQty'' \<mapsto> PStr ''0.7'']"

text \<open>A record that also carries a latency, as the web layer's processor produces.\<close>

definition tick_lat :: "int \<Rightarrow> int \<Rightarrow> bbo_update" where
  "tick_lat t l = (tick t)(''backendLatency'' \<mapsto> PInt l)"

section \<open>Properties\<close>

declare bisect_left_loop.simps [simp del] bisect_right_loop.simps [simp del]

subsection \<open>Binary search on a sorted index\<close>

lemma sorted_nth_less_iff:
  "sorted ts \<Longrightarrow> i < length ts \<Longrightarrow> (ts ! i < x) = (i < length (filter (\<lambda>t. t < (x::int)) ts))"
proof (induction ts arbitrary: i)
  case Nil
  then show ?case by simp
next
  case (Cons a ts)
  show ?case
  proof (cases "a < x")
    case True
    with Cons show ?thesis by (cases i) auto
  next
    case False
    with Cons.prems(1) have "filter (\<lambda>t. t < x) ts = []"
      by (auto simp: filter_empty_conv)
    moreover from False Cons.prems(1) have "\<forall>t\<in>set (a # ts). \<not> t < x"
      by auto
    with nth_mem[OF Cons.prems(2)] have "\<not> (a # ts) ! i < x"
      by blast
    ultimately show ?thesis using False by simp
  qed
qed

lemma sorted_nth_le_iff:
  "sorted ts \<Longrightarrow> i < length ts \<Longrightarrow> (ts ! i \<le> x) = (i < length (filter (\<lambda>t. t \<le> (x::int)) ts))"
proof (induction ts arbitrary: i)
  case Nil
  then show ?case by simp
next
  case (Cons a ts)
  show ?case
  proof (cases "a \<le> x")
    case True
    with Cons show ?thesis by (cases i) auto
  next
    case False
    with Cons.prems(1) have "filter (\<lambda>t. t \<le> x) ts = []"
      by (auto simp: filter_empty_conv)
    moreover from False Cons.prems(1) have "\<forall>t\<in>set (a # ts). \<not> t \<le> x"
      by auto
    with nth_mem[OF Cons.prems(2)] have "\<not> (a # ts) ! i \<le> x"
      by blast
    ultimately show ?thesis using False by simp
  qed
qed

lemma bisect_left_loop_ints:
  assumes "sorted ts" "lo \<le> length (filter (\<lambda>t. t < x) ts)"
    "length (filter (\<lambda>t. t < x) ts) \<le> hi" "hi \<le> length ts"
  shows "bisect_left_loop (map PInt ts) (PInt x) lo hi = Inr (length (filter (\<lambda>t. t < x) ts))"
  using assms
proof (induction "hi - lo" arbitrary: lo hi rule: less_induct)
  case less
  let ?p = "length (filter (\<lambda>t. t < x) ts)"
  show ?case
  proof (cases "lo < hi")
    case False
    with less.prems have "lo = ?p" by simp
    with False show ?thesis by (subst bisect_left_loop.simps) simp
  next
    case True
    let ?mid = "(lo + hi) div 2"
    from True less.prems have mid: "?mid < length ts" "lo \<le> ?mid" "?mid < hi" by auto
    have cmp: "py_lt (map PInt ts ! ?mid) (PInt x) = Inr (?mid < ?p)"
      using mid sorted_nth_less_iff[OF less.prems(1) mid(1), of x] by simp
    show ?thesis
    proof (cases "?mid < ?p")
      case lt: True
      have "bisect_left_loop (map PInt ts) (PInt x) (?mid + 1) hi = Inr ?p"
        using less.prems lt mid True by (intro less.hyps) auto
      with True cmp lt show ?thesis
        by (simp add: bisect_left_loop.simps[of _ _ lo hi])
    next
      case ge: False
      have "bisect_left_loop (map PInt ts) (PInt x) lo ?mid = Inr ?p"
        using less.prems ge mid True by (intro less.hyps) auto
      with True cmp ge show ?thesis
        by (simp add: bisect_left_loop.simps[of _ _ lo hi])
    qed
  qed
qed

lemma bisect_right_loop_ints:
  assumes "sorted ts" "lo \<le> length (filter (\<lambda>t. t \<le> x) ts)"
    "length (filter (\<lambda>t. t \<le> x) ts) \<le> hi" "hi \<le> length ts"
  shows "bisect_right_loop (map PInt ts) (PInt x) lo hi = Inr (length (filter (\<lambda>t. t \<le> x) ts))"
  using assms
proof (induction "hi - lo" arbitrary: lo hi rule: less_induct)
  case less
  let ?p = "length (filter (\<lambda>t. t \<le> x) ts)"
  show ?case
  proof (cases "lo < hi")
    case False
    with less.prems have "lo = ?p" by simp
    with False show ?thesis by (subst bisect_right_loop.simps) simp
  next
    case True
    let ?mid = "(lo + hi) div 2"
    from True less.prems have mid: "?mid < length ts" "lo \<le> ?mid" "?mid < hi" by auto
    have cmp: "py_lt (PInt x) (map PInt ts ! ?mid) = Inr (\<not> ?mid < ?p)"
      using mid sorted_nth_le_iff[OF less.prems(1) mid(1), of x] by auto
    show ?thesis
    proof (cases "?mid < ?p")
      case lt: True
      have "bisect_right_loop (map PInt ts) (PInt x) (?mid + 1) hi = Inr ?p"
        using less.prems lt mid True by (intro less.hyps) auto
      with True cmp lt show ?thesis
        by (simp add: bisect_right_loop.simps[of _ _ lo hi])
    next
      case ge: False
      have "bisect_right_loop (map PInt ts) (PInt x) lo ?mid = Inr ?p"
        using less.prems ge mid True by (intro less.hyps) auto
      with True cmp ge show ?thesis
        by (simp add: bisect_right_loop.simps[of _ _ lo hi])
    qed
  qed
qed

lemma bisect_left_ints:
  "sorted ts \<Longrightarrow> bisect_left (map PInt ts) (PInt x) = Inr (length (filter (\<lambda>t. t < x) ts))"
  unfolding bisect_left_def
  using bisect_left_loop_ints[of ts 0 x "length ts"] by simp

lemma bisect_right_ints:
  "sorted ts \<Longrightarrow> bisect_right (map PInt ts) (PInt x) = Inr (length (filter (\<lambda>t. t \<le> x) ts))"
  unfolding bisect_right_def
  using bisect_right_loop_ints[of ts 0 x "length ts"] by simp

lemma sorted_take_filter_less:
  "sorted ts \<Longrightarrow> take (length (filter (\<lambda>t. t < (x::int)) ts)) ts = filter (\<lambda>t. t < x) ts"
proof (induction ts)
  case Nil
  then show ?case by simp
next
  case (Cons a ts)
  show ?case
  proof (cases "a < x")
    case True
    with Cons show ?thesis by simp
  next
    case False
    with Cons.prems have "filter (\<lambda>t. t < x) ts = []"
      by (auto simp: filter_empty_conv)
    with False show ?thesis by simp
  qed
qed

lemma sorted_drop_filter_less:
  "sorted ts \<Longrightarrow> drop (length (filter (\<lambda>t. t < (x::int)) ts)) ts = filter (\<lambda>t. \<not> t < x) ts"
proof (induction ts)
  case Nil
  then show ?case by simp
next
  case (Cons a ts)
  show ?case
  proof (cases "a < x")
    case True
    with Cons show ?thesis by simp
  next
    case False
    with Cons.prems have "filter (\<lambda>t. t < x) ts = []" "filter (\<lambda>t. \<not> t < x) ts = ts"
      by (auto simp: filter_empty_conv filter_id_conv)
    with False show ?thesis by simp
  qed
qed

lemma sorted_list_insert:
  assumes "sorted ts"
  shows "sorted (list_insert (length (filter (\<lambda>t. t < (x::int)) ts)) x ts)"
proof -
  have "sorted (filter (\<lambda>t. t < x) ts @ x # filter (\<lambda>t. \<not> t < x) ts)"
    using assms by (auto simp: sorted_append intro: sorted_wrt_filter)
  then show ?thesis
    using assms by (simp add: list_insert_def sorted_take_filter_less sorted_drop_filter_less)
qed


lemma ints_map: "list_all is_int ts \<Longrightarrow> map PInt (map int_val ts) = ts"
proof (induction ts)
  case Nil
  then show ?case by simp
next
  case (Cons t ts)
  then show ?case by (cases t) simp_all
qed

lemma bisect_left_stamps:
  assumes "list_all is_int ts" "sorted (map int_val ts)"
  shows "bisect_left ts (PInt x) = Inr (length (filter (\<lambda>t. int_val t < x) ts))"
proof -
  have "bisect_left (map PInt (map int_val ts)) (PInt x)
        = Inr (length (filter (\<lambda>t. t < x) (map int_val ts)))"
    using assms(2) by (rule bisect_left_ints)
  moreover have "length (filter (\<lambda>t. t < x) (map int_val ts)) = length (filter (\<lambda>t. int_val t < x) ts)"
    by (simp add: filter_map o_def)
  ultimately show ?thesis using ints_map[OF assms(1)] by simp
qed

lemma bisect_right_stamps:
  assumes "list_all is_int ts" "sorted (map int_val ts)"
  shows "bisect_right ts (PInt x) = Inr (length (filter (\<lambda>t. int_val t \<le> x) ts))"
proof -
  have "bisect_right (map PInt (map int_val ts)) (PInt x)
        = Inr (length (filter (\<lambda>t. t \<le> x) (map int_val ts)))"
    using assms(2) by (rule bisect_right_ints)
  moreover have "length (filter (\<lambda>t. t \<le> x) (map int_val ts)) = length (filter (\<lambda>t. int_val t \<le> x) ts)"
    by (simp add: filter_map o_def)
  ultimately show ?thesis using ints_map[OF assms(1)] by simp
qed

lemma dd_get_upd: "dd_get (m(s \<mapsto> v)) = (dd_get m)(s := v)"
  by (auto simp: dd_get_def fun_eq_iff)

lemma series_eq: "series c = dd_get (map_of (updates c))"
  by (simp add: series_def fun_eq_iff)

lemma stamps_eq: "stamps c = dd_get (timestamps c)"
  by (simp add: stamps_def fun_eq_iff)

lemmas view_simps = series_eq stamps_eq dd_get_upd update_conv'

lemma ensure_symbol_series: "series (ensure_symbol c s) = series c"
  by (auto simp: ensure_symbol_def series_def dd_get_def update_conv' fun_eq_iff)

lemma ensure_symbol_stamps:
  "length (series c s) = length (stamps c s) \<Longrightarrow> stamps (ensure_symbol c s) = stamps c"
  by (auto simp: ensure_symbol_def series_def stamps_def dd_get_def fun_eq_iff split: option.splits)

lemma ensure_symbol_fields [simp]:
  "max_items (ensure_symbol c s) = max_items c"
  "latency_stats (ensure_symbol c s) = latency_stats c"
  "insert_count (ensure_symbol c s) = insert_count c"
  by (simp_all add: ensure_symbol_def)

lemma evict_oldest_effect:
  assumes "length (series c s) = length (stamps c s)"
  shows "snd (evict_oldest c s) = (if max_items c \<le> int (length (series c s)) \<and> series c s = [] then Some IndexError else None)"
    and "series (fst (evict_oldest c s)) = (series c)(s := evicted (max_items c) (series c s))"
    and "stamps (fst (evict_oldest c s)) = (stamps c)(s := evicted (max_items c) (stamps c s))"
    and "max_items (fst (evict_oldest c s)) = max_items c"
    and "latency_stats (fst (evict_oldest c s)) = latency_stats c"
    and "insert_count (fst (evict_oldest c s)) = insert_count c"
proof -
  let ?us = "dd_get (map_of (updates c)) s"
  let ?ts = "dd_get (timestamps c) s"
  from assms have len: "length ?us = length ?ts" by (simp add: series_def stamps_def)
  show "snd (evict_oldest c s) = (if max_items c \<le> int (length (series c s)) \<and> series c s = [] then Some IndexError else None)"
    using len by (cases ?us; cases ?ts) (simp_all add: evict_oldest_def series_def Let_def)
  show "series (fst (evict_oldest c s)) = (series c)(s := evicted (max_items c) (series c s))"
    using len
    by (cases ?us; cases ?ts) (auto simp: evict_oldest_def Let_def evicted_def fun_eq_iff series_def update_conv' dd_get_def)
  show "stamps (fst (evict_oldest c s)) = (stamps c)(s := evicted (max_items c) (stamps c s))"
    using len
    by (cases ?us; cases ?ts) (auto simp: evict_oldest_def Let_def evicted_def fun_eq_iff stamps_def dd_get_def)
  show "max_items (fst (evict_oldest c s)) = max_items c"
    by (cases ?us; cases ?ts) (simp_all add: evict_oldest_def Let_def)
  show "latency_stats (fst (evict_oldest c s)) = latency_stats c"
    by (cases ?us; cases ?ts) (simp_all add: evict_oldest_def Let_def)
  show "insert_count (fst (evict_oldest c s)) = insert_count c"
    by (cases ?us; cases ?ts) (simp_all add: evict_oldest_def Let_def)
qed


lemma py_ge_int: "is_int t \<Longrightarrow> py_ge (PInt x) t = Inr (int_val t \<le> x)"
  by (cases t) simp_all

lemma list_insert_Nil [simp]: "list_insert p x [] = [x]"
  by (simp add: list_insert_def)

lemma place_update_effect:
  assumes "series_ok c s"
  shows "snd (place_update c s (PInt x) item) = None"
    and "series (fst (place_update c s (PInt x) item))
         = (series c)(s := list_insert (insert_pos (stamps c s) x) item (series c s))"
    and "stamps (fst (place_update c s (PInt x) item))
         = (stamps c)(s := list_insert (insert_pos (stamps c s) x) (PInt x) (stamps c s))"
    and "max_items (fst (place_update c s (PInt x) item)) = max_items c"
    and "latency_stats (fst (place_update c s (PInt x) item)) = latency_stats c"
    and "insert_count (fst (place_update c s (PInt x) item)) = insert_count c"
proof -
  let ?ts = "dd_get (timestamps c) s"
  let ?us = "dd_get (map_of (updates c)) s"
  from assms have ok: "list_all is_int ?ts" "sorted (map int_val ?ts)" "length ?us = length ?ts"
    by (simp_all add: series_ok_def series_def stamps_def)
  have bis: "bisect_left ?ts (PInt x) = Inr (length (filter (\<lambda>t. int_val t < x) ?ts))"
    using ok by (simp add: bisect_left_stamps)
  have ge: "?ts \<noteq> [] \<Longrightarrow> py_ge (PInt x) (last ?ts) = Inr (int_val (last ?ts) \<le> x)"
    using ok(1) by (intro py_ge_int) (simp add: list_all_iff)
  have app: "?us @ [item] = list_insert (length ?ts) item ?us"
    using ok(3) by (simp add: list_insert_def)
  have app': "?ts @ [PInt x] = list_insert (length ?ts) (PInt x) ?ts"
    by (simp add: list_insert_def)
  show "snd (place_update c s (PInt x) item) = None"
    using bis ge by (simp add: place_update_def Let_def)
  show "series (fst (place_update c s (PInt x) item))
         = (series c)(s := list_insert (insert_pos (stamps c s) x) item (series c s))"
    using bis ge app
    by (simp add: place_update_def Let_def insert_pos_def view_simps)
  show "stamps (fst (place_update c s (PInt x) item))
         = (stamps c)(s := list_insert (insert_pos (stamps c s) x) (PInt x) (stamps c s))"
    using bis ge app'
    by (simp add: place_update_def Let_def insert_pos_def view_simps)
  show "max_items (fst (place_update c s (PInt x) item)) = max_items c"
    using bis ge by (simp add: place_update_def Let_def)
  show "latency_stats (fst (place_update c s (PInt x) item)) = latency_stats c"
    using bis ge by (simp add: place_update_def Let_def)
  show "insert_count (fst (place_update c s (PInt x) item)) = insert_count c"
    using bis ge by (simp add: place_update_def Let_def)
qed

lemma map_list_insert: "map f (list_insert p x xs) = list_insert p (f x) (map f xs)"
  by (simp add: list_insert_def take_map drop_map)

lemma length_list_insert [simp]: "length (list_insert p x xs) = Suc (length xs)"
  by (simp add: list_insert_def)

lemma sorted_le_last: "sorted xs \<Longrightarrow> y \<in> set xs \<Longrightarrow> y \<le> last (xs::int list)"
  by (induction xs) auto

lemma sorted_insert_pos:
  assumes "sorted (map int_val ts)"
  shows "sorted (map int_val (list_insert (insert_pos ts x) (PInt x) ts))"
proof (cases "ts = [] \<or> int_val (last ts) \<le> x")
  case True
  have "\<forall>y\<in>set (map int_val ts). y \<le> x"
  proof
    fix y assume y: "y \<in> set (map int_val ts)"
    then have ne: "ts \<noteq> []" by auto
    from y assms have "y \<le> last (map int_val ts)" by (simp add: sorted_le_last)
    also have "\<dots> = int_val (last ts)" using ne by (simp add: last_map)
    finally show "y \<le> x" using True ne by simp
  qed
  with assms have "sorted (map int_val ts @ [x])" by (simp add: sorted_append)
  with True show ?thesis by (simp add: insert_pos_def map_list_insert list_insert_def)
next
  case False
  have "length (filter (\<lambda>t. int_val t < x) ts) = length (filter (\<lambda>t. t < x) (map int_val ts))"
    by (simp add: filter_map o_def)
  with False sorted_list_insert[OF assms, of x] show ?thesis
    by (simp add: insert_pos_def map_list_insert)
qed

lemma list_all_list_insert: "list_all P (list_insert p x xs) = (P x \<and> list_all P (take p xs) \<and> list_all P (drop p xs))"
  by (auto simp: list_insert_def)

lemma list_all_insert_ok: "list_all P xs \<Longrightarrow> P x \<Longrightarrow> list_all P (list_insert p x xs)"
  by (auto simp: list_insert_def list_all_iff dest: in_set_takeD in_set_dropD)

lemma evicted_props:
  "list_all P xs \<Longrightarrow> list_all P (evicted cap xs)"
  "sorted (map f xs) \<Longrightarrow> sorted (map f (evicted cap xs))"
  "length xs = length ys \<Longrightarrow> length (evicted cap xs) = length (evicted cap ys)"
  by (cases xs; cases ys; simp add: evicted_def)+

lemma map_evicted: "map g (evicted cap xs) = evicted cap (map g xs)"
  by (cases xs) (simp_all add: evicted_def)





lemma insert_update_alt:
  "insert_update c s t item =
     (if snd (evict_oldest (ensure_symbol c s) s) \<noteq> None
      then evict_oldest (ensure_symbol c s) s
      else place_update (fst (evict_oldest (ensure_symbol c s) s)) s t item)"
  by (cases "evict_oldest (ensure_symbol c s) s") (auto simp: insert_update_def split: option.splits)

lemma insert_update_effect:
  assumes "series_ok c s"
  defines "ts' \<equiv> evicted (max_items c) (stamps c s)"
  defines "us' \<equiv> evicted (max_items c) (series c s)"
  shows "snd (insert_update c s (PInt x) item) = (if blocked c s then Some IndexError else None)"
    and "series (fst (insert_update c s (PInt x) item))
         = (if blocked c s then series c
            else (series c)(s := list_insert (insert_pos ts' x) item us'))"
    and "stamps (fst (insert_update c s (PInt x) item))
         = (if blocked c s then stamps c
            else (stamps c)(s := list_insert (insert_pos ts' x) (PInt x) ts'))"
    and "max_items (fst (insert_update c s (PInt x) item)) = max_items c"
    and "latency_stats (fst (insert_update c s (PInt x) item)) = latency_stats c"
    and "insert_count (fst (insert_update c s (PInt x) item)) = insert_count c"
proof -
  let ?c1 = "ensure_symbol c s"
  let ?c2 = "fst (evict_oldest ?c1 s)"
  from assms(1) have ok: "list_all is_int (stamps c s)" "sorted (map int_val (stamps c s))"
      "length (series c s) = length (stamps c s)"
    by (simp_all add: series_ok_def)
  have c1: "series ?c1 = series c" "stamps ?c1 = stamps c"
    using ok(3) by (simp_all add: ensure_symbol_series ensure_symbol_stamps)
  have len1: "length (series ?c1 s) = length (stamps ?c1 s)"
    by (simp only: c1 ok(3))
  note ev = evict_oldest_effect[OF len1]
  have e1: "snd (evict_oldest ?c1 s) = (if blocked c s then Some IndexError else None)"
    by (simp add: ev(1) c1 blocked_def)
  have e2: "series ?c2 = (series c)(s := us')"
    by (simp add: ev(2) c1 us'_def)
  have e3: "stamps ?c2 = (stamps c)(s := ts')"
    by (simp add: ev(3) c1 ts'_def)
  have e4: "max_items ?c2 = max_items c" "latency_stats ?c2 = latency_stats c"
      "insert_count ?c2 = insert_count c"
    by (simp_all add: ev(4,5,6))
  have ok2: "series_ok ?c2 s"
    unfolding series_ok_def e2 e3 fun_upd_same ts'_def us'_def
    using evicted_props(1)[OF ok(1)] evicted_props(2)[OF ok(2)] evicted_props(3)[OF ok(3)]
    by blast
  note pl = place_update_effect[OF ok2, of x item]
  have p2: "series (fst (place_update ?c2 s (PInt x) item))
            = (series c)(s := list_insert (insert_pos ts' x) item us')"
    by (simp add: pl(2) e2 e3)
  have p3: "stamps (fst (place_update ?c2 s (PInt x) item))
            = (stamps c)(s := list_insert (insert_pos ts' x) (PInt x) ts')"
    by (simp add: pl(3) e2 e3)
  have b2: "blocked c s \<Longrightarrow> (series c)(s := us') = series c"
    by (auto simp: blocked_def us'_def evicted_def fun_eq_iff)
  have b3: "blocked c s \<Longrightarrow> (stamps c)(s := ts') = stamps c"
    using ok(3) by (auto simp: blocked_def ts'_def evicted_def fun_eq_iff)
  show "snd (insert_update c s (PInt x) item) = (if blocked c s then Some IndexError else None)"
    by (simp add: insert_update_alt e1 pl(1))
  show "series (fst (insert_update c s (PInt x) item))
         = (if blocked c s then series c
            else (series c)(s := list_insert (insert_pos ts' x) item us'))"
    by (simp add: insert_update_alt e1 p2 e2 b2)
  show "stamps (fst (insert_update c s (PInt x) item))
         = (if blocked c s then stamps c
            else (stamps c)(s := list_insert (insert_pos ts' x) (PInt x) ts'))"
    by (simp add: insert_update_alt e1 p3 e3 b3)
  show "max_items (fst (insert_update c s (PInt x) item)) = max_items c"
    by (simp add: insert_update_alt e1 pl(4) e4)
  show "latency_stats (fst (insert_update c s (PInt x) item)) = latency_stats c"
    by (simp add: insert_update_alt e1 pl(5) e4)
  show "insert_count (fst (insert_update c s (PInt x) item)) = insert_count c"
    by (simp add: insert_update_alt e1 pl(6) e4)
qed




lemma record_latency_view:
  "series (record_latency c s t u) = series c"
  "stamps (record_latency c s t u) = stamps c"
  "max_items (record_latency c s t u) = max_items c"
  "insert_count (record_latency c s t u) = insert_count c"
  by (simp_all add: record_latency_def store_latency_def Let_def series_def stamps_def fun_eq_iff
      split: option.splits)

lemma blocked_record_latency: "blocked (record_latency c s t u) s' = blocked c s'"
  by (simp add: blocked_def record_latency_view)

lemma series_ok_record_latency: "series_ok (record_latency c s t u) s' = series_ok c s'"
  by (simp add: series_ok_def record_latency_view)

lemma resolve_timestamp_some:
  "resolve_timestamp now u = Inr u1 \<Longrightarrow> u1 ''timestamp'' \<noteq> None"
  by (auto simp: resolve_timestamp_def split: if_splits option.splits sum.splits)

lemma convert_fields_other:
  "k \<notin> {''bidPrice'', ''bidQty'', ''askPrice'', ''askQty''} \<Longrightarrow> convert_fields u k = u k"
  by (simp add: convert_fields_def field_mappings_def)

lemma add_update_admission:
  "add_update now c u =
     (case admission now u of
        None \<Rightarrow> c
      | Some (s, t, u') \<Rightarrow>
          if snd (insert_update (record_latency c s t u') s t u') = None
          then (fst (insert_update (record_latency c s t u') s t u'))
                 \<lparr>insert_count := insert_count (fst (insert_update (record_latency c s t u') s t u')) + 1\<rparr>
          else fst (insert_update (record_latency c s t u') s t u'))"
proof (cases "u ''symbol''")
  case None
  then show ?thesis by (simp add: add_update_def add_update_as_def admission_def)
next
  case (Some s)
  show ?thesis
  proof (cases "resolve_timestamp now u")
    case (Inl e)
    with Some show ?thesis by (simp add: add_update_def add_update_as_def admission_def)
  next
    case (Inr u1)
    from resolve_timestamp_some[OF Inr] have t: "the (u1 ''timestamp'') = dict_get u1 ''timestamp''"
      by (auto simp: dict_get_def)
    show ?thesis
    proof (cases "insert_update (record_latency c s (dict_get u1 ''timestamp'') (convert_fields u1)) s
                    (dict_get u1 ''timestamp'') (convert_fields u1)")
      case (Pair c' e)
      with Some Inr t show ?thesis
        by (cases e) (simp_all add: add_update_def add_update_as_def admission_def Let_def)
    qed
  qed
qed

lemma admission_stamp:
  "admission now u = Some (s, t, u') \<Longrightarrow> dict_get u' ''timestamp'' = t"
  by (auto simp: admission_def dict_get_def convert_fields_other
      split: option.splits sum.splits if_splits)

lemma add_update_rejected: "admission now u = None \<Longrightarrow> add_update now c u = c"
  by (simp add: add_update_admission)

lemma view_insert_count:
  "series (c\<lparr>insert_count := n\<rparr>) = series c"
  "stamps (c\<lparr>insert_count := n\<rparr>) = stamps c"
  by (simp_all add: series_def stamps_def fun_eq_iff)

lemma add_update_view:
  assumes "admission now u = Some (s, PInt x, u')" "series_ok c s"
  defines "ts' \<equiv> evicted (max_items c) (stamps c s)"
  defines "us' \<equiv> evicted (max_items c) (series c s)"
  shows "series (add_update now c u)
         = (if blocked c s then series c else (series c)(s := list_insert (insert_pos ts' x) u' us'))"
    and "stamps (add_update now c u)
         = (if blocked c s then stamps c
            else (stamps c)(s := list_insert (insert_pos ts' x) (PInt x) ts'))"
    and "max_items (add_update now c u) = max_items c"
proof -
  let ?c0 = "record_latency c s (PInt x) u'"
  have ok0: "series_ok ?c0 s" using assms(2) by (simp add: series_ok_record_latency)
  let ?r = "insert_update ?c0 s (PInt x) u'"
  note ie = insert_update_effect[OF ok0, of x u', unfolded record_latency_view blocked_record_latency]
  have r1: "snd ?r = (if blocked c s then Some IndexError else None)"
    using ie(1) .
  have r2: "series (fst ?r)
            = (if blocked c s then series c else (series c)(s := list_insert (insert_pos ts' x) u' us'))"
    using ie(2) by (simp only: ts'_def us'_def)
  have r3: "stamps (fst ?r)
            = (if blocked c s then stamps c
               else (stamps c)(s := list_insert (insert_pos ts' x) (PInt x) ts'))"
    using ie(3) by (simp only: ts'_def us'_def)
  have au: "add_update now c u
            = (if snd ?r = None then (fst ?r)\<lparr>insert_count := insert_count (fst ?r) + 1\<rparr>
               else fst ?r)"
    using assms(1) by (simp add: add_update_admission)
  show "series (add_update now c u)
         = (if blocked c s then series c else (series c)(s := list_insert (insert_pos ts' x) u' us'))"
    by (cases "blocked c s") (simp_all add: au r1 r2 view_insert_count)
  show "stamps (add_update now c u)
         = (if blocked c s then stamps c
            else (stamps c)(s := list_insert (insert_pos ts' x) (PInt x) ts'))"
    by (cases "blocked c s") (simp_all add: au r1 r3 view_insert_count)
  show "max_items (add_update now c u) = max_items c"
    using ie(4) by (simp add: au)
qed

lemma series_ok_insert:
  assumes "series_ok c s"
    and "series c' s = list_insert (insert_pos (evicted cap (stamps c s)) x) item (evicted cap (series c s))"
    and "stamps c' s = list_insert (insert_pos (evicted cap (stamps c s)) x) (PInt x) (evicted cap (stamps c s))"
  shows "series_ok c' s"
proof -
  from assms(1) have ok: "list_all is_int (stamps c s)" "sorted (map int_val (stamps c s))"
      "length (series c s) = length (stamps c s)"
    by (simp_all add: series_ok_def)
  have "list_all is_int (stamps c' s)"
    unfolding assms(3) by (rule list_all_insert_ok[OF evicted_props(1)[OF ok(1)]]) simp
  moreover have "sorted (map int_val (stamps c' s))"
    unfolding assms(3) by (rule sorted_insert_pos[OF evicted_props(2)[OF ok(2)]])
  moreover have "length (series c' s) = length (stamps c' s)"
    unfolding assms(2,3) using evicted_props(3)[OF ok(3)] by simp
  ultimately show ?thesis by (simp add: series_ok_def)
qed

lemma int_stampedD:
  "int_stamped now u \<Longrightarrow> admission now u = Some (s, t, u') \<Longrightarrow> \<exists>x. t = PInt x"
  by (cases t) (simp_all add: int_stamped_def)

lemma add_update_series_ok:
  assumes "\<forall>s. series_ok c s" "int_stamped now u"
  shows "series_ok (add_update now c u) s'"
proof (cases "admission now u")
  case None
  with assms(1) show ?thesis by (simp add: add_update_rejected)
next
  case (Some a)
  then obtain s t u' where a: "admission now u = Some (s, t, u')" by (cases a) auto
  with int_stampedD[OF assms(2)] obtain x where adm: "admission now u = Some (s, PInt x, u')"
    by blast
  from assms(1) have oks: "series_ok c s" and oks': "series_ok c s'" by simp_all
  note v = add_update_view[OF adm oks]
  show ?thesis
  proof (cases "blocked c s")
    case True
    from True v have "series (add_update now c u) = series c" "stamps (add_update now c u) = stamps c"
      by simp_all
    with oks' show ?thesis by (simp add: series_ok_def)
  next
    case False
    show ?thesis
    proof (cases "s' = s")
      case True
      from False have ins: "series (add_update now c u) s = list_insert (insert_pos (evicted (max_items c) (stamps c s)) x) u' (evicted (max_items c) (series c s))"
        "stamps (add_update now c u) s = list_insert (insert_pos (evicted (max_items c) (stamps c s)) x) (PInt x) (evicted (max_items c) (stamps c s))"
        by (simp_all add: v)
      show ?thesis unfolding True by (rule series_ok_insert[OF oks ins])
    next
      case neq: False
      with False have "series (add_update now c u) s' = series c s'"
        "stamps (add_update now c u) s' = stamps c s'"
        by (simp_all add: v)
      with oks' show ?thesis by (simp add: series_ok_def)
    qed
  qed
qed

lemma add_update_records_match:
  assumes "\<forall>s. series_ok c s" "int_stamped now u" "\<forall>s. records_match c s"
  shows "records_match (add_update now c u) s'"
proof (cases "admission now u")
  case None
  with assms(3) show ?thesis by (simp add: add_update_rejected)
next
  case (Some a)
  then obtain s t u' where a: "admission now u = Some (s, t, u')" by (cases a) auto
  with int_stampedD[OF assms(2)] obtain x where adm: "admission now u = Some (s, PInt x, u')"
    by blast
  from assms(1) have oks: "series_ok c s" by simp
  from assms(3) have rm: "records_match c s" "records_match c s'" by simp_all
  note v = add_update_view[OF adm oks]
  have st: "dict_get u' ''timestamp'' = PInt x" using adm by (rule admission_stamp)
  show ?thesis
  proof (cases "blocked c s")
    case True
    from True v have "series (add_update now c u) = series c" "stamps (add_update now c u) = stamps c"
      by simp_all
    with rm show ?thesis by (simp add: records_match_def)
  next
    case False
    show ?thesis
    proof (cases "s' = s")
      case True
      let ?f = "\<lambda>u. dict_get u ''timestamp''"
      let ?p = "insert_pos (evicted (max_items c) (stamps c s)) x"
      from rm(1) have m: "map ?f (series c s) = stamps c s" by (simp add: records_match_def)
      have "map ?f (list_insert ?p u' (evicted (max_items c) (series c s)))
            = list_insert ?p (PInt x) (evicted (max_items c) (map ?f (series c s)))"
        by (simp only: map_list_insert map_evicted st)
      with False True m show ?thesis
        by (simp add: records_match_def v)
    next
      case neq: False
      with False rm(2) show ?thesis by (simp add: records_match_def v)
    qed
  qed
qed

lemma BBOCache_view:
  "series (BBOCache C) s = []" "stamps (BBOCache C) s = []" "max_items (BBOCache C) = C"
  by (simp_all add: BBOCache_def series_def stamps_def dd_get_def)

lemma BBOCache_ok: "series_ok (BBOCache C) s" "records_match (BBOCache C) s"
  by (simp_all add: series_ok_def records_match_def BBOCache_view)

lemma add_updates_ok:
  assumes "list_all (\<lambda>(now, u). int_stamped now u) calls"
    and "\<forall>s. series_ok c s" "\<forall>s. records_match c s"
  shows "series_ok (add_updates c calls) s \<and> records_match (add_updates c calls) s"
  using assms
proof (induction calls arbitrary: c)
  case Nil
  then show ?case by simp
next
  case (Cons call calls)
  obtain now u where call: "call = (now, u)" by (cases call)
  from Cons.prems(1) call have st: "int_stamped now u" and rest: "list_all (\<lambda>(now, u). int_stamped now u) calls"
    by simp_all
  have "\<forall>s. series_ok (add_update now c u) s"
    using add_update_series_ok[OF Cons.prems(2) st] by blast
  moreover have "\<forall>s. records_match (add_update now c u) s"
    using add_update_records_match[OF Cons.prems(2) st Cons.prems(3)] by blast
  ultimately show ?case using Cons.IH[OF rest] call by simp
qed

lemma get_updates_all: "get_updates c s None None None = Inr (series c s)"
  by (simp add: get_updates_def series_def dd_get_def split: option.splits)

subsection \<open>Evaluating the model on the example records\<close>

lemma tick_fields:
  "convert_fields (tick t) = tick t"
  "resolve_timestamp now (tick t) = Inr (tick t)"
  "missing_fields (tick t) = []"
  "tick t ''symbol'' = Some (PStr ''BTCUSDT'')"
  "tick t ''timestamp'' = Some (PInt t)"
  "tick t ''backendLatency'' = None"
  "tick t ''latency'' = None"
  by (simp_all add: tick_def convert_fields_def field_mappings_def resolve_timestamp_def
      missing_fields_def required_fields_def)

lemmas add_update_unfold =
  add_update_def add_update_as_def BBOCache_def record_latency_def store_latency_def
  insert_update_def ensure_symbol_def evict_oldest_def place_update_def dd_get_def
  list_insert_def Let_def

lemma two_ticks:
  "add_update 0 (add_update 0 (BBOCache 10) (tick 1000)) (tick 2000) =
     \<lparr>updates = [(PStr ''BTCUSDT'', [tick 1000, tick 2000])],
      timestamps = [PStr ''BTCUSDT'' \<mapsto> [PInt 1000, PInt 2000]],
      latency_stats = Map.empty, max_items = 10, insert_count = 2\<rparr>"
  by (simp add: tick_fields add_update_unfold)

subsection \<open>Slices\<close>

lemma py_slice_from_nonneg: "0 \<le> i \<Longrightarrow> py_slice_from i xs = drop (nat i) xs"
  by (cases "i \<le> int (length xs)") (simp_all add: py_slice_from_def min_def)

subsection \<open>A limit that is not positive\<close>

text \<open>
  Claim C10 says that \<open>limit = 0\<close>, and any limit that is not positive, returns all
  the matching records. With a negative limit the slice \<open>[-limit:]\<close> starts at a
  positive index: two records are stored, and \<open>limit = -1\<close> returns only the newer.
\<close>

theorem negative_limit_drops_records:
  "get_updates (add_update 0 (add_update 0 (BBOCache 10) (tick 1000)) (tick 2000))
      (PStr ''BTCUSDT'') None None (Some (- 1)) = Inr [tick 2000]
   \<and> get_updates (add_update 0 (add_update 0 (BBOCache 10) (tick 1000)) (tick 2000))
      (PStr ''BTCUSDT'') None None None = Inr [tick 1000, tick 2000]"
  by (simp add: two_ticks get_updates_def py_slice_from_def)

text \<open>
  C10, amended: with or without time bounds, \<open>limit = 0\<close> returns every matching
  record, and a negative limit \<open>-m\<close> returns the matching records without their
  first \<open>m\<close>; an error of the unlimited query is the same error.
\<close>

theorem get_updates_nonpositive_limit:
  "l \<le> 0 \<Longrightarrow>
   get_updates c symbol s e (Some l) =
     (case get_updates c symbol s e None of
        Inl err \<Rightarrow> Inl err
      | Inr r \<Rightarrow> Inr (drop (nat (- l)) r))"
  by (auto simp: get_updates_def py_slice_from_nonneg Let_def split: option.splits sum.splits)

theorem get_updates_nonpositive_limit_witness:
  "get_updates (add_update 0 (add_update 0 (BBOCache 10) (tick 1000)) (tick 2000))
      (PStr ''BTCUSDT'') None None (Some 0) = Inr [tick 1000, tick 2000]"
  using get_updates_nonpositive_limit
    [of 0 "add_update 0 (add_update 0 (BBOCache 10) (tick 1000)) (tick 2000)"
        "PStr ''BTCUSDT''" None None]
  by (simp add: two_ticks get_updates_def)

subsection \<open>Range queries\<close>

lemma sorted_prefix_filter:
  assumes "sorted (map f xs)" and mono: "\<And>a b. a \<le> b \<Longrightarrow> P b \<Longrightarrow> P (a::int)"
  shows "take (length (filter (\<lambda>x. P (f x)) xs)) xs = filter (\<lambda>x. P (f x)) xs"
    and "drop (length (filter (\<lambda>x. P (f x)) xs)) xs = filter (\<lambda>x. \<not> P (f x)) xs"
  using assms(1)
proof (induction xs)
  case Nil
  { case 1 show ?case by simp }
  { case 2 show ?case by simp }
next
  case (Cons a xs)
  have none: "\<not> P (f a) \<Longrightarrow> sorted (map f (a # xs)) \<Longrightarrow> filter (\<lambda>x. P (f x)) xs = []"
    using mono by (auto simp: filter_empty_conv)
  { case 1
    show ?case
    proof (cases "P (f a)")
      case True
      with Cons.IH(1) 1 show ?thesis by simp
    next
      case False
      with none 1 show ?thesis by simp
    qed }
  { case 2
    show ?case
    proof (cases "P (f a)")
      case True
      with Cons.IH(2) 2 show ?thesis by simp
    next
      case False
      with none[OF False 2] have "filter (\<lambda>x. \<not> P (f x)) xs = xs"
        by (simp add: filter_empty_conv filter_id_conv)
      with False none[OF False 2] show ?thesis by simp
    qed }
qed

lemma sorted_range_slice:
  assumes "sorted (map f xs)"
  shows "py_slice (length (filter (\<lambda>x. f x < s) xs)) (length (filter (\<lambda>x. f x \<le> e) xs)) xs
         = filter (\<lambda>x. s \<le> f x \<and> f x \<le> (e::int)) xs"
proof -
  let ?a = "length (filter (\<lambda>x. f x < s) xs)"
  let ?b = "length (filter (\<lambda>x. f x \<le> e) xs)"
  let ?ys = "filter (\<lambda>x. f x \<le> e) xs"
  have tk: "take ?b xs = ?ys"
    using sorted_prefix_filter(1)[OF assms, of "\<lambda>t. t \<le> e"] by simp
  have "py_slice ?a ?b xs = drop ?a (take ?b xs)"
    by (simp only: py_slice_def drop_take)
  then have sl: "py_slice ?a ?b xs = drop ?a ?ys"
    by (simp only: tk)
  show ?thesis
  proof (cases "s \<le> e")
    case True
    have sy: "sorted (map f ?ys)" using assms by (simp add: sorted_filter)
    have "length (filter (\<lambda>x. f x < s) ?ys) = ?a"
      using True by (auto intro!: arg_cong[where f=length] filter_cong)
    with sorted_prefix_filter(2)[OF sy, of "\<lambda>t. t < s"]
    have "drop ?a ?ys = filter (\<lambda>x. \<not> f x < s) ?ys" by simp
    also have "\<dots> = filter (\<lambda>x. s \<le> f x \<and> f x \<le> e) xs"
      by (auto intro: filter_cong)
    finally show ?thesis using sl by simp
  next
    case False
    have "?b \<le> ?a"
    proof -
      have "?ys = filter (\<lambda>x. f x \<le> e) (filter (\<lambda>x. f x < s) xs)"
        using False by (auto intro: filter_cong)
      then have "?b = length (filter (\<lambda>x. f x \<le> e) (filter (\<lambda>x. f x < s) xs))" by simp
      also have "\<dots> \<le> ?a" by (rule length_filter_le)
      finally show ?thesis .
    qed
    moreover have "filter (\<lambda>x. s \<le> f x \<and> f x \<le> e) xs = []"
      using False by (auto simp: filter_empty_conv)
    ultimately show ?thesis by (simp add: py_slice_def)
  qed
qed

lemma get_updates_series:
  "map_of (updates c) symbol = None \<Longrightarrow> series c symbol = []"
  "map_of (updates c) symbol = Some us \<Longrightarrow> series c symbol = us"
  by (simp_all add: series_def dd_get_def)

lemma stamps_count:
  assumes "records_match c symbol"
  shows "length (filter (\<lambda>t. P (int_val t)) (stamps c symbol))
         = length (filter (\<lambda>u. P (stamp_of u)) (series c symbol))"
proof -
  from assms have "stamps c symbol = map (\<lambda>u. dict_get u ''timestamp'') (series c symbol)"
    by (simp add: records_match_def)
  then show ?thesis by (simp add: filter_map o_def stamp_of_def)
qed

lemma get_updates_bounded:
  assumes "series_ok c symbol" "records_match c symbol"
  shows "get_updates c symbol (Some (PInt s)) (Some (PInt e)) limit
         = Inr (let result = filter (\<lambda>u. s \<le> stamp_of u \<and> stamp_of u \<le> e) (series c symbol)
                in case limit of
                     None \<Rightarrow> result
                   | Some l \<Rightarrow> if int (length result) > l then py_slice_from (- l) result
                               else result)"
proof -
  let ?ts = "stamps c symbol"
  let ?us = "series c symbol"
  from assms(1) have ok: "list_all is_int ?ts" "sorted (map int_val ?ts)"
    by (simp_all add: series_ok_def)
  have bl: "bisect_left ?ts (PInt s) = Inr (length (filter (\<lambda>u. stamp_of u < s) ?us))"
    using bisect_left_stamps[OF ok, of s] stamps_count[OF assms(2), of "\<lambda>t. t < s"] by simp
  have br: "bisect_right ?ts (PInt e) = Inr (length (filter (\<lambda>u. stamp_of u \<le> e) ?us))"
    using bisect_right_stamps[OF ok, of e] stamps_count[OF assms(2), of "\<lambda>t. t \<le> e"] by simp
  have srt: "sorted (map stamp_of ?us)"
  proof -
    from assms(2) have "?ts = map (\<lambda>u. dict_get u ''timestamp'') ?us"
      by (simp add: records_match_def)
    then have "map int_val ?ts = map stamp_of ?us"
      by (simp add: o_def stamp_of_def)
    with ok(2) show ?thesis by simp
  qed
  note sl = sorted_range_slice[OF srt, of s e]
  show ?thesis
  proof (cases "map_of (updates c) symbol")
    case None
    then show ?thesis
      by (simp add: get_updates_def get_updates_series py_slice_from_def split: option.splits)
  next
    case (Some us)
    with get_updates_series(2)[OF Some] bl br sl show ?thesis
      by (simp add: get_updates_def stamps_def[symmetric] Let_def)
  qed
qed


lemma three_ticks:
  "add_updates (BBOCache 10) [(0, tick 1000), (0, tick 3000), (0, tick 2000)] =
     \<lparr>updates = [(PStr ''BTCUSDT'', [tick 1000, tick 2000, tick 3000])],
      timestamps = [PStr ''BTCUSDT'' \<mapsto> [PInt 1000, PInt 2000, PInt 3000]],
      latency_stats = Map.empty, max_items = 10, insert_count = 3\<rparr>"
  by (simp add: tick_fields add_update_unfold bisect_left_stamps)

lemma stamp_of_tick: "stamp_of (tick t) = t"
  by (simp add: stamp_of_def dict_get_def tick_fields)

text \<open>
  C4: on a well-formed series, \<open>get_updates\<close> with both bounds returns exactly the
  records whose timestamp lies between them, bounds included, in stored order. With a
  positive limit below the number of matched records, it returns the last \<open>limit\<close> of
  them. Every cache built by \<open>add_update\<close> calls is well formed
  (\<open>add_updates_ok\<close>).
\<close>

theorem get_updates_range:
  assumes "series_ok c symbol" "records_match c symbol"
  shows "get_updates c symbol (Some (PInt s)) (Some (PInt e)) None
           = Inr (filter (\<lambda>u. s \<le> stamp_of u \<and> stamp_of u \<le> e) (series c symbol))
         \<and> (0 < l \<longrightarrow>
              get_updates c symbol (Some (PInt s)) (Some (PInt e)) (Some l)
                = Inr (let matched = filter (\<lambda>u. s \<le> stamp_of u \<and> stamp_of u \<le> e)
                                       (series c symbol)
                       in if l < int (length matched)
                          then drop (length matched - nat l) matched else matched))"
proof -
  have "0 < l \<Longrightarrow> l < int (length xs) \<Longrightarrow> py_slice_from (- l) xs = drop (length xs - nat l) xs"
    for xs :: "bbo_update list"
    by (simp add: py_slice_from_def nat_diff_distrib')
  then show ?thesis
    by (simp add: get_updates_bounded[OF assms] Let_def)
qed

theorem get_updates_range_witness:
  "get_updates (add_updates (BBOCache 10) [(0, tick 1000), (0, tick 3000), (0, tick 2000)])
      (PStr ''BTCUSDT'') (Some (PInt 1500)) (Some (PInt 3000)) None = Inr [tick 2000, tick 3000]
   \<and> get_updates (add_updates (BBOCache 10) [(0, tick 1000), (0, tick 3000), (0, tick 2000)])
      (PStr ''BTCUSDT'') (Some (PInt 1500)) (Some (PInt 3000)) (Some 1) = Inr [tick 3000]"
proof -
  let ?calls = "[(0, tick 1000), (0, tick 3000), (0, tick 2000)]"
  let ?c = "add_updates (BBOCache 10) ?calls"
  have h: "list_all (\<lambda>(now, u). int_stamped now u) ?calls"
    by (simp add: int_stamped_def admission_def tick_fields dict_get_def)
  have ok: "series_ok ?c (PStr ''BTCUSDT'')" "records_match ?c (PStr ''BTCUSDT'')"
    using add_updates_ok[OF h, of "BBOCache 10" "PStr ''BTCUSDT''"] BBOCache_ok by blast+
  have s: "series ?c (PStr ''BTCUSDT'') = [tick 1000, tick 2000, tick 3000]"
    unfolding three_ticks by (simp add: series_def dd_get_def)
  from get_updates_range[OF ok, of 1500 3000 1] show ?thesis
    by (simp add: s stamp_of_tick del: add_updates.simps)
qed

subsection \<open>Capacity\<close>

lemma add_updates_snoc:
  "add_updates c (calls @ [call]) = add_update (fst call) (add_updates c calls) (snd call)"
proof (induction calls arbitrary: c)
  case Nil
  then show ?case by (cases call) simp
next
  case (Cons a calls)
  then show ?case by (cases a) simp
qed

lemma admitted_forD:
  assumes "admitted_for symbol call"
  shows "\<exists>x. admission (fst call) (snd call) = Some (symbol, PInt x, stored_record call)
             \<and> stamp_of (stored_record call) = x"
proof -
  from assms obtain t u' where a: "admission (fst call) (snd call) = Some (symbol, t, u')" "is_int t"
    by (auto simp: admitted_for_def split: option.splits)
  then obtain x where t: "t = PInt x" by (cases t) simp_all
  from a(1) have "stored_record call = u'" by (simp add: stored_record_def)
  moreover from admission_stamp[OF a(1)] t have "stamp_of u' = x" by (simp add: stamp_of_def)
  ultimately show ?thesis using a(1) t by simp
qed

lemma admitted_int_stamped:
  "list_all (admitted_for symbol) calls \<Longrightarrow> list_all (\<lambda>(now, u). int_stamped now u) calls"
  by (auto simp: list_all_iff admitted_for_def int_stamped_def split: option.splits)

lemma not_blocked: "0 < max_items c \<Longrightarrow> \<not> blocked c s"
  by (auto simp: blocked_def)

lemma evict_oldest_max_items: "max_items (fst (evict_oldest c s)) = max_items c"
  by (simp add: evict_oldest_def Let_def split: list.splits)

lemma place_update_max_items: "max_items (fst (place_update c s t item)) = max_items c"
  by (simp add: place_update_def Let_def split: sum.splits)

lemma insert_update_max_items: "max_items (fst (insert_update c s t item)) = max_items c"
  by (simp add: insert_update_alt evict_oldest_max_items place_update_max_items)

lemma record_latency_max_items: "max_items (record_latency c s t u) = max_items c"
  by (simp add: record_latency_view)

lemma add_updates_max_items:
  "max_items (add_updates c calls) = max_items c"
proof (induction calls arbitrary: c)
  case Nil
  then show ?case by simp
next
  case (Cons call calls)
  obtain now u where call: "call = (now, u)" by (cases call)
  have "max_items (add_update now c u) = max_items c"
  proof (cases "admission now u")
    case None
    then show ?thesis by (simp add: add_update_rejected)
  next
    case (Some a)
    obtain s t u' where a: "a = (s, t, u')" by (cases a)
    have "max_items (fst (insert_update (record_latency c s t u') s t u')) = max_items c"
      by (simp add: insert_update_max_items record_latency_max_items)
    with Some a show ?thesis by (simp add: add_update_admission)
  qed
  with Cons.IH[of "add_update now c u"] call show ?case by simp
qed


lemma reachable_ok:
  assumes "list_all (\<lambda>(now, u). int_stamped now u) calls"
  shows "series_ok (add_updates (BBOCache C) calls) s"
    and "records_match (add_updates (BBOCache C) calls) s"
  using add_updates_ok[OF assms, of "BBOCache C" s] BBOCache_ok by blast+

lemma add_update_step:
  assumes "0 < C" "list_all (admitted_for symbol) calls" "admitted_for symbol call"
  defines "c \<equiv> add_updates (BBOCache C) calls"
  shows "series (add_update (fst call) c (snd call)) symbol
         = list_insert (insert_pos (evicted C (stamps c symbol)) (stamp_of (stored_record call)))
             (stored_record call) (evicted C (series c symbol))"
proof -
  from admitted_forD[OF assms(3)] have adm:
    "admission (fst call) (snd call) = Some (symbol, PInt (stamp_of (stored_record call)), stored_record call)"
    by auto
  have mi: "max_items c = C" by (simp add: c_def add_updates_max_items BBOCache_view)
  have ok: "series_ok c symbol"
    unfolding c_def by (rule reachable_ok(1)[OF admitted_int_stamped[OF assms(2)]])
  from assms(1) mi have nb: "\<not> blocked c symbol" by (simp add: not_blocked)
  show ?thesis using add_update_view(1)[OF adm ok] nb mi by simp
qed

lemma length_evicted:
  "0 < C \<Longrightarrow> length xs \<le> nat C \<Longrightarrow> Suc (length (evicted C xs)) = min (Suc (length xs)) (nat C)"
  by (cases xs) (auto simp: evicted_def)

lemma capacity_length:
  assumes "0 < C" "list_all (admitted_for symbol) calls"
  shows "length (series (add_updates (BBOCache C) calls) symbol) = min (length calls) (nat C)"
  using assms(2)
proof (induction calls rule: rev_induct)
  case Nil
  then show ?case by (simp add: BBOCache_view)
next
  case (snoc call calls)
  then have adm: "list_all (admitted_for symbol) calls" "admitted_for symbol call" by simp_all
  let ?c = "add_updates (BBOCache C) calls"
  from snoc.IH[OF adm(1)] have len: "length (series ?c symbol) = min (length calls) (nat C)" .
  then have le: "length (series ?c symbol) \<le> nat C" by simp
  have "length (series (add_updates (BBOCache C) (calls @ [call])) symbol)
        = Suc (length (evicted C (series ?c symbol)))"
    by (simp only: add_updates_snoc add_update_step[OF assms(1) adm] length_list_insert)
  also have "\<dots> = min (Suc (length (series ?c symbol))) (nat C)"
    using assms(1) le by (rule length_evicted)
  also have "\<dots> = min (length (calls @ [call])) (nat C)"
    using len by simp
  finally show ?case .
qed

lemma evicted_drop:
  assumes "0 < C" and that: "length xs = n"
  shows "evicted C (drop (n - nat C) xs) = drop (Suc n - nat C) xs"
proof (cases "nat C \<le> n")
  case True
  with that assms(1) have "C \<le> int (length (drop (n - nat C) xs))" by simp
  then have "evicted C (drop (n - nat C) xs) = tl (drop (n - nat C) xs)"
    by (simp add: evicted_def)
  also have "\<dots> = drop (Suc (n - nat C)) xs" by (simp add: drop_Suc tl_drop)
  also have "Suc (n - nat C) = Suc n - nat C" using True by simp
  finally show ?thesis .
next
  case False
  with that assms(1) have "\<not> C \<le> int (length (drop (n - nat C) xs))" by simp
  with False show ?thesis by (simp add: evicted_def)
qed

lemma capacity_in_order:
  assumes "0 < C" "list_all (admitted_for symbol) calls"
    and "sorted (map (\<lambda>call. stamp_of (stored_record call)) calls)"
  shows "series (add_updates (BBOCache C) calls) symbol
         = drop (length calls - nat C) (map stored_record calls)"
  using assms(2,3)
proof (induction calls rule: rev_induct)
  case Nil
  then show ?case by (simp add: BBOCache_view)
next
  case (snoc call calls)
  then have adm: "list_all (admitted_for symbol) calls" "admitted_for symbol call" by simp_all
  from snoc.prems(2) have srt: "sorted (map (\<lambda>call. stamp_of (stored_record call)) calls)"
    and le: "\<forall>k\<in>set calls. stamp_of (stored_record k) \<le> stamp_of (stored_record call)"
    by (auto simp: sorted_append)
  let ?c = "add_updates (BBOCache C) calls"
  let ?x = "stamp_of (stored_record call)"
  let ?S = "map stored_record calls"
  from snoc.IH[OF adm(1) srt] have ser: "series ?c symbol = drop (length calls - nat C) ?S" .
  have ok: "series_ok ?c symbol" "records_match ?c symbol"
    by (rule reachable_ok[OF admitted_int_stamped[OF adm(1)]])+
  from ok(2) have st: "stamps ?c symbol = map (\<lambda>u. dict_get u ''timestamp'') (series ?c symbol)"
    by (simp add: records_match_def)
  have ev: "evicted C (series ?c symbol) = drop (Suc (length calls) - nat C) ?S"
    unfolding ser by (rule evicted_drop[OF assms(1)]) simp
  have evs: "evicted C (stamps ?c symbol)
             = map (\<lambda>u. dict_get u ''timestamp'') (drop (Suc (length calls) - nat C) ?S)"
    unfolding st by (simp only: map_evicted[symmetric] ev)
  have pos: "insert_pos (evicted C (stamps ?c symbol)) ?x = length (evicted C (stamps ?c symbol))"
  proof (cases "evicted C (stamps ?c symbol) = []")
    case True
    then show ?thesis by (simp add: insert_pos_def)
  next
    case False
    then have "last (evicted C (stamps ?c symbol)) \<in> set (evicted C (stamps ?c symbol))"
      by simp
    then obtain k where "k \<in> set calls"
      "last (evicted C (stamps ?c symbol)) = dict_get (stored_record k) ''timestamp''"
      unfolding evs by (auto dest!: in_set_dropD)
    with le have "int_val (last (evicted C (stamps ?c symbol))) \<le> ?x"
      by (auto simp: stamp_of_def)
    then show ?thesis by (simp add: insert_pos_def)
  qed
  have "series (add_updates (BBOCache C) (calls @ [call])) symbol
        = list_insert (length (evicted C (stamps ?c symbol))) (stored_record call)
            (evicted C (series ?c symbol))"
    by (simp only: add_updates_snoc add_update_step[OF assms(1) adm] pos)
  also have "length (evicted C (stamps ?c symbol)) = length (evicted C (series ?c symbol))"
    unfolding evs ev by simp
  also have "list_insert (length (evicted C (series ?c symbol))) (stored_record call)
               (evicted C (series ?c symbol))
             = evicted C (series ?c symbol) @ [stored_record call]"
    by (simp add: list_insert_def)
  also have "\<dots> = drop (length (calls @ [call]) - nat C) (map stored_record (calls @ [call]))"
    unfolding ev using assms(1) by simp
  finally show ?case .
qed


lemma admitted_tick: "admitted_for (PStr ''BTCUSDT'') (now, tick t)"
  "stored_record (now, tick t) = tick t"
  by (simp_all add: admitted_for_def stored_record_def admission_def tick_fields dict_get_def)

lemma full_cache:
  "add_updates (BBOCache 2) [(0, tick 10), (0, tick 20)] =
     \<lparr>updates = [(PStr ''BTCUSDT'', [tick 10, tick 20])],
      timestamps = [PStr ''BTCUSDT'' \<mapsto> [PInt 10, PInt 20]],
      latency_stats = Map.empty, max_items = 2, insert_count = 2\<rparr>"
  by (simp add: tick_fields add_update_unfold)

text \<open>
  Claim C3 says that after \<open>C + k\<close> insertions the \<open>k\<close> records evicted are the
  \<open>k\<close> oldest by time. The eviction happens before the new record is placed and
  takes the oldest record already stored: with capacity 2, after 10 and 20 the late
  record 5 evicts 10 and stays, although it is the oldest of the three.
\<close>

theorem late_record_survives_eviction:
  "get_updates (add_updates (BBOCache 2) [(0, tick 10), (0, tick 20), (0, tick 5)])
     (PStr ''BTCUSDT'') None None None = Inr [tick 5, tick 20]"
proof -
  have "add_updates (BBOCache 2) [(0, tick 10), (0, tick 20), (0, tick 5)]
        = add_update 0 (add_updates (BBOCache 2) [(0, tick 10), (0, tick 20)]) (tick 5)"
    by simp
  also have "\<dots> = \<lparr>updates = [(PStr ''BTCUSDT'', [tick 5, tick 20])],
      timestamps = [PStr ''BTCUSDT'' \<mapsto> [PInt 5, PInt 20]],
      latency_stats = Map.empty, max_items = 2, insert_count = 3\<rparr>"
    unfolding full_cache by (simp add: tick_fields add_update_unfold bisect_left_stamps)
  finally show ?thesis by (simp add: get_updates_def)
qed

text \<open>
  C3, amended. For a capacity \<open>C \<ge> 1\<close> and records accepted for one symbol:
  the series holds \<open>min n C\<close> records after \<open>n\<close> insertions, so never more than \<open>C\<close>,
  and exactly \<open>C\<close> after \<open>C + k\<close>; an insertion into a full series first drops the
  head of the series, which is the stored record with the smallest timestamp, and then
  places the new record at its sorted position, so the new record is always kept;
  and when the records arrive in non-decreasing timestamp order the series is the
  last \<open>C\<close> of them, the evicted ones being the oldest. \<open>series\<close> is what
  \<open>get_updates\<close> without bounds returns.
\<close>

theorem capacity_eviction:
  assumes "0 < C" "list_all (admitted_for symbol) calls" "admitted_for symbol call"
  shows "get_updates (add_updates (BBOCache C) calls) symbol None None None
           = Inr (series (add_updates (BBOCache C) calls) symbol)
         \<and> length (series (add_updates (BBOCache C) calls) symbol) = min (length calls) (nat C)
         \<and> series (add_update (fst call) (add_updates (BBOCache C) calls) (snd call)) symbol
           = list_insert
               (insert_pos (evicted C (stamps (add_updates (BBOCache C) calls) symbol))
                  (stamp_of (stored_record call)))
               (stored_record call)
               (evicted C (series (add_updates (BBOCache C) calls) symbol))
         \<and> (sorted (map (\<lambda>k. stamp_of (stored_record k)) calls) \<longrightarrow>
              series (add_updates (BBOCache C) calls) symbol
                = drop (length calls - nat C) (map stored_record calls))"
  using get_updates_all capacity_length[OF assms(1,2)] add_update_step[OF assms]
    capacity_in_order[OF assms(1,2)]
  by blast

theorem capacity_eviction_witness:
  "length (series (add_updates (BBOCache 2) [(0, tick 10), (0, tick 20)]) (PStr ''BTCUSDT'')) = 2
   \<and> series (add_update 0 (add_updates (BBOCache 2) [(0, tick 10), (0, tick 20)]) (tick 30))
         (PStr ''BTCUSDT'') = [tick 20, tick 30]
   \<and> series (add_updates (BBOCache 2) [(0, tick 10), (0, tick 20)]) (PStr ''BTCUSDT'')
       = [tick 10, tick 20]"
proof -
  have h: "list_all (admitted_for (PStr ''BTCUSDT'')) [(0, tick 10), (0, tick 20)]"
    by (simp add: admitted_tick)
  have v: "series (add_updates (BBOCache 2) [(0, tick 10), (0, tick 20)]) (PStr ''BTCUSDT'')
             = [tick 10, tick 20]"
    "stamps (add_updates (BBOCache 2) [(0, tick 10), (0, tick 20)]) (PStr ''BTCUSDT'')
             = [PInt 10, PInt 20]"
    unfolding full_cache by (simp_all add: series_def stamps_def dd_get_def)
  from capacity_eviction[OF _ h admitted_tick(1), of 2 0 30] show ?thesis
    by (simp add: v admitted_tick stamp_of_tick evicted_def insert_pos_def list_insert_def
        del: add_updates.simps)
qed

subsection \<open>The duplicate check\<close>

lemma sorted_find_index:
  assumes "sorted (xs::int list)"
  shows "(length (filter (\<lambda>y. y < t) xs) < length xs \<and> xs ! length (filter (\<lambda>y. y < t) xs) = t)
         = (t \<in> set xs)"
proof
  assume a: "length (filter (\<lambda>y. y < t) xs) < length xs \<and> xs ! length (filter (\<lambda>y. y < t) xs) = t"
  then have "xs ! length (filter (\<lambda>y. y < t) xs) \<in> set xs" by (intro nth_mem) simp
  with a show "t \<in> set xs" by simp
next
  assume t: "t \<in> set xs"
  let ?p = "length (filter (\<lambda>y. y < t) xs)"
  from t obtain i where i: "i < length xs" "xs ! i = t" by (auto simp: in_set_conv_nth)
  have "\<not> i < ?p" using sorted_nth_less_iff[OF assms i(1), of t] i(2) by simp
  then have pi: "?p \<le> i" by simp
  with i(1) have p: "?p < length xs" by simp
  have "\<not> xs ! ?p < t" using sorted_nth_less_iff[OF assms p, of t] by simp
  moreover have "xs ! ?p \<le> xs ! i" using assms pi i(1) by (simp add: sorted_nth_mono)
  ultimately have "xs ! ?p = t" using i(2) by simp
  with p show "?p < length xs \<and> xs ! ?p = t" by simp
qed

lemma ints_obtain:
  assumes "list_all is_int ts" "sorted (map int_val ts)"
  obtains xs where "ts = map PInt xs" "sorted xs"
proof
  show "ts = map PInt (map int_val ts)" using ints_map[OF assms(1)] by simp
  show "sorted (map int_val ts)" by fact
qed

lemma bisect_found_iff:
  assumes "sorted xs"
  shows "(case bisect_left (map PInt xs) (PInt t) of
            Inl e \<Rightarrow> False
          | Inr idx \<Rightarrow> idx < length (map PInt xs) \<and> map PInt xs ! idx = PInt t)
         = (PInt t \<in> set (map PInt xs))"
proof -
  let ?p = "length (filter (\<lambda>y. y < t) xs)"
  have "(?p < length (map PInt xs) \<and> map PInt xs ! ?p = PInt t) = (?p < length xs \<and> xs ! ?p = t)"
    by (cases "?p < length xs") simp_all
  also have "\<dots> = (t \<in> set xs)" using assms by (rule sorted_find_index)
  also have "\<dots> = (PInt t \<in> set (map PInt xs))" by auto
  finally show ?thesis by (simp add: bisect_left_ints[OF assms])
qed

lemma contains_update_iff:
  assumes "series_ok c s" "u ''symbol'' = Some s" "truthy s"
    "u ''timestamp'' = Some (PInt t)" "t \<noteq> 0"
  shows "contains_update c u = (PInt t \<in> set (stamps c s))"
proof -
  from assms(1) have ok: "list_all is_int (stamps c s)" "sorted (map int_val (stamps c s))"
    by (simp_all add: series_ok_def)
  then obtain xs where xs: "stamps c s = map PInt xs" "sorted xs" by (rule ints_obtain)
  note found = bisect_found_iff[OF xs(2), of t]
  have sy: "dict_get u ''symbol'' = s" "dict_get u ''timestamp'' = PInt t"
    using assms(2,4) by (simp_all add: dict_get_def)
  show ?thesis
  proof (cases "timestamps c s")
    case None
    then have "stamps c s = []" by (simp add: stamps_def dd_get_def)
    with None assms(3,5) sy show ?thesis by (simp add: contains_update_def)
  next
    case (Some ts)
    then have ts: "ts = map PInt xs" using xs(1) by (simp add: stamps_def dd_get_def)
    show ?thesis
    proof (cases "xs = []")
      case True
      with Some ts xs(1) assms(3,5) sy show ?thesis by (simp add: contains_update_def)
    next
      case False
      with Some assms(3,5) sy found show ?thesis
        unfolding ts xs(1) contains_update_def by simp
    qed
  qed
qed


lemma process_bbo_update_cache:
  "cache (process_bbo_update now m u)
     = (if contains_update (cache m) u then cache m else add_update now (cache m) u)"
  "running (process_bbo_update now m u)"
  by (simp_all add: process_bbo_update_def start_def Let_def)

lemma process_bbo_update_duplicate:
  "running m \<Longrightarrow> contains_update (cache m) u \<Longrightarrow> process_bbo_update now m u = m"
  by (simp add: process_bbo_update_def Let_def)

lemma admission_timestamped:
  assumes "u ''symbol'' = Some s" "u ''timestamp'' = Some t" "missing_fields (convert_fields u) = []"
  shows "admission now u = Some (s, t, convert_fields u)"
  using assms by (simp add: admission_def resolve_timestamp_def dict_get_def)

lemma set_evicted: "set (evicted cap xs) \<subseteq> set xs"
  by (cases xs) (auto simp: evicted_def)

lemma set_list_insert: "set (list_insert p x xs) = insert x (set xs)"
proof -
  have "set (take p xs) \<union> set (drop p xs) = set xs"
    by (metis append_take_drop_id set_append)
  then show ?thesis by (auto simp: list_insert_def)
qed

lemma count_list_insert:
  "length (filter P (list_insert p x xs)) = (if P x then 1 else 0) + length (filter P xs)"
proof -
  have "length (filter P (take p xs)) + length (filter P (drop p xs)) = length (filter P xs)"
    by (metis append_take_drop_id filter_append length_append)
  then show ?thesis by (simp add: list_insert_def)
qed

lemma admitted_view:
  assumes "admission now u = Some (s, PInt x, u')" "series_ok c s" "0 < max_items c"
  shows "series (add_update now c u) s
         = list_insert (insert_pos (evicted (max_items c) (stamps c s)) x) u'
             (evicted (max_items c) (series c s))"
    and "stamps (add_update now c u) s
         = list_insert (insert_pos (evicted (max_items c) (stamps c s)) x) (PInt x)
             (evicted (max_items c) (stamps c s))"
    and "series_ok (add_update now c u) s"
proof -
  from assms(3) have nb: "\<not> blocked c s" by (rule not_blocked)
  show a: "series (add_update now c u) s
         = list_insert (insert_pos (evicted (max_items c) (stamps c s)) x) u'
             (evicted (max_items c) (series c s))"
    using add_update_view(1)[OF assms(1,2)] nb by simp
  show b: "stamps (add_update now c u) s
         = list_insert (insert_pos (evicted (max_items c) (stamps c s)) x) (PInt x)
             (evicted (max_items c) (stamps c s))"
    using add_update_view(2)[OF assms(1,2)] nb by simp
  show "series_ok (add_update now c u) s"
    by (rule series_ok_insert[OF assms(2) a b])
qed


lemma zero_tick_twice:
  "cache (process_bbo_update 0 (process_bbo_update 0 (CacheManager 10) (tick 0)) (tick 0)) =
     \<lparr>updates = [(PStr ''BTCUSDT'', [tick 0, tick 0])],
      timestamps = [PStr ''BTCUSDT'' \<mapsto> [PInt 0, PInt 0]],
      latency_stats = Map.empty, max_items = 10, insert_count = 2\<rparr>"
  by (simp add: process_bbo_update_cache CacheManager_def contains_update_def dict_get_def
      tick_fields add_update_unfold)

text \<open>
  Claim C2 says that admitting the same (symbol, eventTime) twice through
  \<open>process_bbo_update\<close> stores one record, for every symbol and every eventTime.
  \<open>contains_update\<close> answers \<open>False\<close> for a timestamp that is not truthy, and 0 is
  not: a record with timestamp 0 admitted twice is stored twice.
\<close>

theorem zero_timestamp_stored_twice:
  "get_updates
     (cache (process_bbo_update 0 (process_bbo_update 0 (CacheManager 10) (tick 0)) (tick 0)))
     (PStr ''BTCUSDT'') None None None = Inr [tick 0, tick 0]"
  unfolding zero_tick_twice by (simp add: get_updates_def)

text \<open>
  C2, amended. Let the symbol be truthy (a non-empty string) and the record carry a
  non-zero integer in its \<open>timestamp\<close> field, together with the four price and
  quantity fields, and let the series of the symbol be well formed with a positive
  capacity. After \<open>process_bbo_update\<close> has admitted the record, admitting any record
  with the same symbol and timestamp again leaves the manager exactly as it is; the
  timestamp is in the index; and if it was not there before the first call, exactly
  one stored record carries it.
\<close>

theorem duplicate_is_noop:
  assumes "series_ok (cache m) s" "records_match (cache m) s" "0 < max_items (cache m)"
    and "u ''symbol'' = Some s" "truthy s" "u ''timestamp'' = Some (PInt t)" "t \<noteq> 0"
    and "missing_fields (convert_fields u) = []"
    and "v ''symbol'' = Some s" "v ''timestamp'' = Some (PInt t)"
  shows "process_bbo_update now' (process_bbo_update now m u) v = process_bbo_update now m u
         \<and> PInt t \<in> set (stamps (cache (process_bbo_update now m u)) s)
         \<and> (PInt t \<notin> set (stamps (cache m) s) \<longrightarrow>
              length (filter (\<lambda>r. dict_get r ''timestamp'' = PInt t)
                        (series (cache (process_bbo_update now m u)) s)) = 1)"
proof -
  let ?m1 = "process_bbo_update now m u"
  let ?P = "\<lambda>r. dict_get r ''timestamp'' = PInt t"
  have adm: "admission now u = Some (s, PInt t, convert_fields u)"
    using assms(4,6,8) by (rule admission_timestamped)
  have cu: "contains_update (cache m) u = (PInt t \<in> set (stamps (cache m) s))"
    using assms(1,4,5,6,7) by (rule contains_update_iff)
  have ok1: "series_ok (cache ?m1) s"
    and mem: "PInt t \<in> set (stamps (cache ?m1) s)"
    and one: "PInt t \<notin> set (stamps (cache m) s) \<longrightarrow>
              length (filter ?P (series (cache ?m1) s)) = 1"
  proof -
    show "series_ok (cache ?m1) s"
      using assms(1) admitted_view(3)[OF adm assms(1,3)] by (simp add: process_bbo_update_cache)
    show "PInt t \<in> set (stamps (cache ?m1) s)"
      using cu admitted_view(2)[OF adm assms(1,3), of ] 
      by (simp add: process_bbo_update_cache set_list_insert)
    show "PInt t \<notin> set (stamps (cache m) s) \<longrightarrow> length (filter ?P (series (cache ?m1) s)) = 1"
    proof
      assume new: "PInt t \<notin> set (stamps (cache m) s)"
      from assms(2) have "set (stamps (cache m) s)
                          = (\<lambda>r. dict_get r ''timestamp'') ` set (series (cache m) s)"
        by (simp add: records_match_def flip: set_map)
      with new have ni: "PInt t \<notin> (\<lambda>r. dict_get r ''timestamp'') ` set (series (cache m) s)"
        by simp
      have "\<forall>r\<in>set (series (cache m) s). \<not> ?P r"
      proof (intro ballI notI)
        fix r assume r: "r \<in> set (series (cache m) s)" "?P r"
        from r(1) have "dict_get r ''timestamp'' \<in> (\<lambda>r. dict_get r ''timestamp'') ` set (series (cache m) s)"
          by (rule imageI)
        with r(2) ni show False by simp
      qed
      with set_evicted[of "max_items (cache m)" "series (cache m) s"]
      have "filter ?P (evicted (max_items (cache m)) (series (cache m) s)) = []"
        by (auto simp: filter_empty_conv)
      moreover have "?P (convert_fields u)" using adm by (rule admission_stamp)
      ultimately show "length (filter ?P (series (cache ?m1) s)) = 1"
        using new cu admitted_view(1)[OF adm assms(1,3)]
        by (simp add: process_bbo_update_cache count_list_insert)
    qed
  qed
  have "contains_update (cache ?m1) v"
    using contains_update_iff[OF ok1 assms(9,5,10,7)] mem by simp
  then have "process_bbo_update now' ?m1 v = ?m1"
    by (intro process_bbo_update_duplicate) (simp_all add: process_bbo_update_cache)
  with mem one show ?thesis by blast
qed

theorem duplicate_is_noop_witness:
  "process_bbo_update 7 (process_bbo_update 0 (CacheManager 10) (tick 1000)) (tick 1000)
     = process_bbo_update 0 (CacheManager 10) (tick 1000)
   \<and> length (filter (\<lambda>r. dict_get r ''timestamp'' = PInt 1000)
        (series (cache (process_bbo_update 0 (CacheManager 10) (tick 1000))) (PStr ''BTCUSDT''))) = 1"
proof -
  have c: "cache (CacheManager 10) = BBOCache 10" by (simp add: CacheManager_def)
  have ok: "series_ok (cache (CacheManager 10)) (PStr ''BTCUSDT'')"
    "records_match (cache (CacheManager 10)) (PStr ''BTCUSDT'')"
    "0 < max_items (cache (CacheManager 10))"
    "PInt 1000 \<notin> set (stamps (cache (CacheManager 10)) (PStr ''BTCUSDT''))"
    unfolding c by (simp_all add: BBOCache_ok BBOCache_view)
  from duplicate_is_noop[OF ok(1-3), of "tick 1000" 1000 "tick 1000" 7 0] ok(4)
  show ?thesis by (simp add: tick_fields)
qed


subsection \<open>Timestamp resolution\<close>

lemma untimed_admission:
  "admission now (untimed_tick t)
     = Some (PStr ''BTCUSDT'', PInt t, (untimed_tick t)(''timestamp'' \<mapsto> PInt t))"
  "untimed_tick t ''timestamp'' = None"
  by (simp_all add: admission_def untimed_tick_def convert_fields_def field_mappings_def
      resolve_timestamp_def missing_fields_def required_fields_def dict_get_def)

lemma not_contains_untimed: "u ''timestamp'' = None \<Longrightarrow> \<not> contains_update c u"
  by (simp add: contains_update_def dict_get_def)

lemma untimed_once:
  defines "c1 \<equiv> cache (process_bbo_update 0 (CacheManager 10) (untimed_tick 5))"
  shows "series c1 (PStr ''BTCUSDT'') = [(untimed_tick 5)(''timestamp'' \<mapsto> PInt 5)]"
    and "stamps c1 (PStr ''BTCUSDT'') = [PInt 5]"
    and "series_ok c1 (PStr ''BTCUSDT'')"
    and "max_items c1 = 10"
proof -
  have c1: "c1 = add_update 0 (BBOCache 10) (untimed_tick 5)"
    by (simp add: c1_def process_bbo_update_cache not_contains_untimed untimed_admission
        CacheManager_def)
  have ok: "series_ok (BBOCache 10 :: bbo_update bbo_cache) (PStr ''BTCUSDT'')"
    "0 < max_items (BBOCache 10 :: bbo_update bbo_cache)"
    by (simp_all add: BBOCache_ok BBOCache_view)
  note v = admitted_view[OF untimed_admission(1) ok, of 0 5]
  show "series c1 (PStr ''BTCUSDT'') = [(untimed_tick 5)(''timestamp'' \<mapsto> PInt 5)]"
    unfolding c1 v(1) by (simp add: BBOCache_view evicted_def)
  show "stamps c1 (PStr ''BTCUSDT'') = [PInt 5]"
    unfolding c1 v(2) by (simp add: BBOCache_view evicted_def)
  show "series_ok c1 (PStr ''BTCUSDT'')" unfolding c1 by (rule v(3))
  show "max_items c1 = 10"
    unfolding c1 using add_update_view(3)[OF untimed_admission(1) ok(1), of 0 5]
    by (simp add: BBOCache_view)
qed

lemma untimed_twice:
  "series (cache (process_bbo_update 0 (process_bbo_update 0 (CacheManager 10) (untimed_tick 5))
             (untimed_tick 5))) (PStr ''BTCUSDT'')
   = [(untimed_tick 5)(''timestamp'' \<mapsto> PInt 5), (untimed_tick 5)(''timestamp'' \<mapsto> PInt 5)]"
proof -
  let ?c1 = "cache (process_bbo_update 0 (CacheManager 10) (untimed_tick 5))"
  have pos: "0 < max_items ?c1" by (simp add: untimed_once(4))
  note v = admitted_view(1)[OF untimed_admission(1) untimed_once(3) pos, of 0 5]
  have eq: "cache (process_bbo_update 0 (process_bbo_update 0 (CacheManager 10) (untimed_tick 5))
                 (untimed_tick 5)) = add_update 0 ?c1 (untimed_tick 5)"
    by (simp add: process_bbo_update_cache(1)[of 0 "process_bbo_update 0 (CacheManager 10) (untimed_tick 5)"]
        not_contains_untimed untimed_admission(2))
  show ?thesis
    unfolding eq v
    by (simp add: untimed_once evicted_def insert_pos_def list_insert_def)
qed

text \<open>
  Claim C7 says that the timestamp is resolved before the duplicate check, which then
  compares the resolved timestamp. \<open>process_bbo_update\<close> checks first, and
  \<open>add_update\<close> resolves afterwards: a record that carries only an exchange time is
  admitted once; the check on its resolved form finds the duplicate, the check on the
  record as delivered does not, and the second delivery is stored again.
\<close>

theorem unresolved_duplicate_stored_twice:
  "contains_update (cache (process_bbo_update 0 (CacheManager 10) (untimed_tick 5)))
     ((untimed_tick 5)(''timestamp'' \<mapsto> PInt 5))
   \<and> \<not> contains_update (cache (process_bbo_update 0 (CacheManager 10) (untimed_tick 5)))
         (untimed_tick 5)
   \<and> get_updates
        (cache (process_bbo_update 0 (process_bbo_update 0 (CacheManager 10) (untimed_tick 5))
                  (untimed_tick 5)))
        (PStr ''BTCUSDT'') None None None
       = Inr [(untimed_tick 5)(''timestamp'' \<mapsto> PInt 5),
              (untimed_tick 5)(''timestamp'' \<mapsto> PInt 5)]"
proof -
  let ?c1 = "cache (process_bbo_update 0 (CacheManager 10) (untimed_tick 5))"
  let ?r = "(untimed_tick 5)(''timestamp'' \<mapsto> PInt 5)"
  have "contains_update ?c1 ?r = (PInt 5 \<in> set (stamps ?c1 (PStr ''BTCUSDT'')))"
    by (rule contains_update_iff[OF untimed_once(3)]) (simp_all add: untimed_tick_def)
  then have "contains_update ?c1 ?r" by (simp add: untimed_once(2))
  moreover have "\<not> contains_update ?c1 (untimed_tick 5)"
    by (rule not_contains_untimed) (rule untimed_admission(2))
  ultimately show ?thesis by (simp add: get_updates_all untimed_twice)
qed

lemma resolve_timestamp_spec:
  "resolve_timestamp now u = Inr u1 \<Longrightarrow> spec_timestamp now u = Inr (dict_get u1 ''timestamp'')"
  by (auto simp: resolve_timestamp_def spec_timestamp_def dict_get_def
      split: option.splits sum.splits if_splits)

lemma admission_spec:
  assumes "admission now u = Some (s, t, u')"
  shows "spec_timestamp now u = Inr t"
proof -
  from assms obtain u1 where "resolve_timestamp now u = Inr u1" "t = dict_get u1 ''timestamp''"
    by (auto simp: admission_def split: option.splits sum.splits if_splits)
  then show ?thesis by (simp add: resolve_timestamp_spec)
qed

lemma received_admission:
  "admission now (received_tick (PStr ''1500''))
     = Some (PStr ''BTCUSDT'', PInt 1500, (received_tick (PStr ''1500''))(''timestamp'' \<mapsto> PInt 1500))"
  "received_tick v ''timestamp'' = None"
  "admission now (received_tick (PStr [CHR 0x1F, CHR ''1'', CHR ''2''])) = None"
  by (simp_all add: admission_def received_tick_def convert_fields_def field_mappings_def
      resolve_timestamp_def missing_fields_def required_fields_def dict_get_def
      int_of_string_def literal_value_def max_str_digits_def is_space_def is_digit_def)

lemma unreadable_receive_time_rejected:
  "cache (process_bbo_update now m (received_tick (PStr [CHR 0x1F, CHR ''1'', CHR ''2''])))
     = cache m"
  by (simp add: process_bbo_update_cache add_update_rejected received_admission(3))

text \<open>
  C7, amended. For a record without a \<open>timestamp\<close> field the duplicate check of
  \<open>process_bbo_update\<close> runs on the record as delivered and never reports a
  duplicate. \<open>add_update\<close> then resolves the timestamp in the priority order exchange
  time, receive time converted by \<open>int\<close>, clock, and the record is stored under the
  resolved timestamp (here for an integer timestamp, a well-formed series and a
  positive capacity).
\<close>

theorem timestamp_resolved_after_check:
  assumes "u ''timestamp'' = None" "series_ok (cache m) s" "0 < max_items (cache m)"
    and "admission now u = Some (s, PInt x, u')"
  shows "\<not> contains_update (cache m) u
         \<and> spec_timestamp now u = Inr (PInt x)
         \<and> (case u ''exchange_time'' of
               Some v \<Rightarrow> v = PInt x
             | None \<Rightarrow>
                 (case u ''received_timestamp'' of
                    Some v \<Rightarrow> py_int v = Inr (PInt x)
                  | None \<Rightarrow> x = now))
         \<and> dict_get u' ''timestamp'' = PInt x
         \<and> u' \<in> set (series (cache (process_bbo_update now m u)) s)
         \<and> PInt x \<in> set (stamps (cache (process_bbo_update now m u)) s)"
proof -
  have nc: "\<not> contains_update (cache m) u"
    using assms(1) by (rule not_contains_untimed)
  have sp: "spec_timestamp now u = Inr (PInt x)" using assms(4) by (rule admission_spec)
  then have ex: "case u ''exchange_time'' of
               Some v \<Rightarrow> v = PInt x
             | None \<Rightarrow>
                 (case u ''received_timestamp'' of
                    Some v \<Rightarrow> py_int v = Inr (PInt x)
                  | None \<Rightarrow> x = now)"
    using assms(1) by (auto simp: spec_timestamp_def split: option.splits)
  have st: "dict_get u' ''timestamp'' = PInt x" using assms(4) by (rule admission_stamp)
  note v = admitted_view[OF assms(4,2,3)]
  from nc v(1) have "u' \<in> set (series (cache (process_bbo_update now m u)) s)"
    by (simp add: process_bbo_update_cache set_list_insert)
  moreover from nc v(2) have "PInt x \<in> set (stamps (cache (process_bbo_update now m u)) s)"
    by (simp add: process_bbo_update_cache set_list_insert)
  ultimately show ?thesis using nc sp ex st by blast
qed

theorem timestamp_resolved_after_check_witness:
  "\<not> contains_update (cache (CacheManager 10)) (untimed_tick 5)
   \<and> spec_timestamp 0 (untimed_tick 5) = Inr (PInt 5)
   \<and> (untimed_tick 5)(''timestamp'' \<mapsto> PInt 5)
       \<in> set (series (cache (process_bbo_update 0 (CacheManager 10) (untimed_tick 5)))
                (PStr ''BTCUSDT''))
   \<and> spec_timestamp 0 (received_tick (PStr ''1500'')) = Inr (PInt 1500)
   \<and> (received_tick (PStr ''1500''))(''timestamp'' \<mapsto> PInt 1500)
       \<in> set (series (cache (process_bbo_update 0 (CacheManager 10) (received_tick (PStr ''1500''))))
                (PStr ''BTCUSDT''))"
proof -
  have c: "cache (CacheManager 10) = BBOCache 10" by (simp add: CacheManager_def)
  have ok: "series_ok (cache (CacheManager 10)) (PStr ''BTCUSDT'')"
    "0 < max_items (cache (CacheManager 10))"
    unfolding c by (simp_all add: BBOCache_ok BBOCache_view)
  from timestamp_resolved_after_check[OF untimed_admission(2)[of 5] ok untimed_admission(1)[of 0 5]]
    timestamp_resolved_after_check[OF received_admission(2) ok received_admission(1)[of 0]]
  show ?thesis by blast
qed

subsection \<open>Clearing old data\<close>

text \<open>On the series itself \<open>clear_old_data\<close> does what C5 says: the loop body keeps
  exactly the records not older than the cutoff, in order.\<close>

lemma clear_symbol_series:
  assumes "series_ok c s" "records_match c s"
  shows "series (fst (clear_symbol cutoff c s)) s
         = filter (\<lambda>u. cutoff \<le> stamp_of u) (series c s)"
proof -
  let ?ts = "stamps c s"
  let ?us = "series c s"
  let ?idx = "length (filter (\<lambda>u. stamp_of u < cutoff) ?us)"
  from assms(1) have ok: "list_all is_int ?ts" "sorted (map int_val ?ts)"
    by (simp_all add: series_ok_def)
  have bl: "bisect_left ?ts (PInt cutoff) = Inr ?idx"
    using bisect_left_stamps[OF ok, of cutoff] stamps_count[OF assms(2), of "\<lambda>t. t < cutoff"]
    by simp
  from assms(2) have st: "?ts = map (\<lambda>u. dict_get u ''timestamp'') ?us"
    by (simp add: records_match_def)
  then have "map int_val ?ts = map stamp_of ?us" by (simp add: o_def stamp_of_def)
  with ok(2) have srt: "sorted (map stamp_of ?us)" by simp
  have dr: "drop ?idx ?us = filter (\<lambda>u. cutoff \<le> stamp_of u) ?us"
    using sorted_prefix_filter(2)[OF srt, of "\<lambda>t. t < cutoff"] by (simp add: not_less)
  have ser: "series (fst (clear_symbol cutoff c s)) s = drop ?idx ?us"
  proof (cases "?ts = []")
    case True
    with st have "?us = []" by simp
    with True show ?thesis
      by (simp add: clear_symbol_def Let_def view_simps)
  next
    case False
    with bl show ?thesis
      by (cases "latency_stats c s")
        (simp_all add: clear_symbol_def Let_def view_simps split: sum.splits)
  qed
  with dr show ?thesis by simp
qed

lemma tick_lat_fields:
  "convert_fields (tick_lat t l) = tick_lat t l"
  "resolve_timestamp now (tick_lat t l) = Inr (tick_lat t l)"
  "missing_fields (tick_lat t l) = []"
  "tick_lat t l ''symbol'' = Some (PStr ''BTCUSDT'')"
  "tick_lat t l ''timestamp'' = Some (PInt t)"
  "tick_lat t l ''backendLatency'' = Some (PInt l)"
  by (simp_all add: tick_lat_def tick_def convert_fields_def field_mappings_def
      resolve_timestamp_def missing_fields_def required_fields_def)

lemma stale_latency_cache:
  "add_update 0 (add_update 0 (BBOCache 1) (tick_lat 5 7)) (tick 100) =
     \<lparr>updates = [(PStr ''BTCUSDT'', [tick 100])],
      timestamps = [PStr ''BTCUSDT'' \<mapsto> [PInt 100]],
      latency_stats = [PStr ''BTCUSDT'' \<mapsto> [(PInt 5, PInt 7)]],
      max_items = 1, insert_count = 2\<rparr>"
  by (simp add: tick_fields tick_lat_fields add_update_unfold)

text \<open>
  C5 says that \<open>clear_old_data\<close> removes from the series and from the latency
  tracker exactly the entries older than the cutoff. The latency samples are filtered
  only when at least one record of the series is dropped. With capacity 1, the record
  at time 5 with latency 7 is evicted by the record at time 100 while its latency
  sample stays; \<open>clear_old_data\<close> at time 150 with a maximal age of 100 (cutoff 50)
  drops nothing from the series and leaves the sample of time 5 in the tracker.
\<close>

theorem clear_old_data_keeps_stale_latency:
  "clear_old_data 150 100 (add_update 0 (add_update 0 (BBOCache 1) (tick_lat 5 7)) (tick 100))
     = (\<lparr>updates = [(PStr ''BTCUSDT'', [tick 100])],
         timestamps = [PStr ''BTCUSDT'' \<mapsto> [PInt 100]],
         latency_stats = [PStr ''BTCUSDT'' \<mapsto> [(PInt 5, PInt 7)]],
         max_items = 1, insert_count = 2\<rparr>, None)"
  unfolding stale_latency_cache
  by (simp add: clear_old_data_def clear_symbol_def dd_get_def bisect_left_stamps Let_def)

subsection \<open>Latency\<close>

lemma exchange_latency_int:
  "exchange_latency data received = Inr (x, l) \<Longrightarrow>
     (data ''E'' = None \<longrightarrow> l = PNone)
     \<and> (\<forall>e. data ''E'' = Some (PInt e) \<longrightarrow>
           l = (if received - e < 10000 then PInt (received - e) else PNone))"
  by (auto simp: exchange_latency_def split: option.splits sum.splits if_splits)

lemma handle_bbo_data_latency:
  assumes "MessageProcessor_handle_bbo_data pyfloat fsub self_symbol data received = Inr web"
  shows "\<exists>x l. exchange_latency data received = Inr (x, l) \<and> web ''latency'' = Some l"
  using assms
  by (auto simp: MessageProcessor_handle_bbo_data_def split: sum.splits prod.splits)

lemma calculate_latency_int:
  assumes "calculate_latency (PInt e) message process_time = Inr l"
    and "dict_get_or message ''received_timestamp'' (PInt process_time) = PInt r"
  shows "l = (if r - e < 10000 then PInt (r - e) else PNone)"
  using assms by (auto simp: calculate_latency_def Let_def split: sum.splits if_splits)


lemma format_message_computed:
  assumes "format_message pystr process_time message = Inr formatted"
    and "dict_get_or message ''received_timestamp'' (PInt process_time) = PInt r"
    and "if message ''bid_price'' \<noteq> None \<and> message ''ask_price'' \<noteq> None
         then dict_get message ''latency'' = PNone \<and> message ''exchange_time'' = Some (PInt e)
         else message ''E'' = Some (PInt e)"
  shows "formatted ''backendLatency'' = Some (if r - e < 10000 then PInt (r - e) else PNone)"
proof (cases "message ''bid_price'' \<noteq> None \<and> message ''ask_price'' \<noteq> None")
  case True
  with assms(3) have m: "dict_get message ''latency'' = PNone"
    "dict_get message ''exchange_time'' = PInt e"
    by (simp_all add: dict_get_def)
  from assms(1) True m obtain l where l: "calculate_latency (PInt e) message process_time = Inr l"
    and f: "formatted ''backendLatency'' = Some l"
    by (auto simp: format_message_def split: sum.splits if_splits)
  from calculate_latency_int[OF l assms(2)] f show ?thesis by simp
next
  case False
  with assms(3) have m: "dict_get message ''E'' = PInt e" by (simp add: dict_get_def)
  from assms(1) False m obtain l where l: "calculate_latency (PInt e) message process_time = Inr l"
    and f: "formatted ''backendLatency'' = Some l"
    by (auto simp: format_message_def split: sum.splits if_splits)
  from calculate_latency_int[OF l assms(2)] f show ?thesis by simp
qed

lemma raw_bbo_handled:
  "MessageProcessor_handle_bbo_data Inr (\<lambda>a b. PStr ''0.10'') ''BTCUSDT'' (raw_bbo e) r
   = Inr [''symbol'' \<mapsto> PStr ''BTCUSDT'',
          ''bid_price'' \<mapsto> PStr ''50000.10'', ''bid_qty'' \<mapsto> PStr ''1.5'',
          ''ask_price'' \<mapsto> PStr ''50000.20'', ''ask_qty'' \<mapsto> PStr ''0.7'',
          ''spread'' \<mapsto> PStr ''0.10'',
          ''latency'' \<mapsto> (if r - e < 10000 then PInt (r - e) else PNone),
          ''exchange_time'' \<mapsto> PInt e,
          ''received_timestamp'' \<mapsto> PInt r]"
  by (simp add: MessageProcessor_handle_bbo_data_def float_field_def exchange_latency_def
      raw_bbo_def)

text \<open>
  \<open>_process_bbo_update\<close> has no bound at all: an event time of 1000 received at
  20000 gives the record a latency of 19000.
\<close>

lemma process_bbo_update_unbounded_latency:
  "map_sum id (\<lambda>d. d ''latency'')
     (MessageProcessor_process_bbo_update ''BTCUSDT'' ((raw_bbo 1000)(''s'' \<mapsto> PStr ''BTCUSDT'')) 20000)
   = Inr (Some (PInt 19000))"
  by (simp add: MessageProcessor_process_bbo_update_def raw_bbo_def dict_get_def Let_def)

text \<open>
  Claim C6 says that a latency is attached only if \<open>0 \<le> eventTime \<le> receivedTime\<close>
  and the difference is below 10000 ms, and is absent otherwise, never negative.
  No path checks the sign of the difference: \<open>_handle_bbo_data\<close>, given an event
  time of 2000 at receive time 1000, attaches the latency \<open>-1000\<close>.
\<close>

theorem negative_latency_attached:
  "map_sum id (\<lambda>d. d ''latency'')
     (MessageProcessor_handle_bbo_data Inr (\<lambda>a b. PStr ''0.10'') ''BTCUSDT'' (raw_bbo 2000) 1000)
   = Inr (Some (PInt (- 1000)))"
  by (simp add: raw_bbo_handled)

text \<open>
  C6, amended. In the record \<open>_handle_bbo_data\<close> produces, and in the latency the
  queue processor computes for a message that brings none, a latency value is
  attached only if the event time is present and \<open>receivedTime - eventTime < 10000\<close>;
  its value is that difference, which is negative when the event time lies after the
  receive time. With a difference of 10000 or more, or without an event time, the
  latency is \<open>None\<close>.
\<close>

theorem latency_below_bound:
  "(MessageProcessor_handle_bbo_data pyfloat fsub self_symbol data received = Inr web \<longrightarrow>
      (data ''E'' = None \<longrightarrow> web ''latency'' = Some PNone)
      \<and> (data ''E'' = Some (PInt e) \<longrightarrow>
           web ''latency'' = Some (if received - e < 10000 then PInt (received - e) else PNone)))
   \<and> (format_message pystr process_time message = Inr formatted \<longrightarrow>
        dict_get_or message ''received_timestamp'' (PInt process_time) = PInt r \<longrightarrow>
        (if message ''bid_price'' \<noteq> None \<and> message ''ask_price'' \<noteq> None
         then dict_get message ''latency'' = PNone \<and> message ''exchange_time'' = Some (PInt e')
         else message ''E'' = Some (PInt e')) \<longrightarrow>
        formatted ''backendLatency'' = Some (if r - e' < 10000 then PInt (r - e') else PNone))"
proof (intro conjI impI)
  assume h: "MessageProcessor_handle_bbo_data pyfloat fsub self_symbol data received = Inr web"
  from handle_bbo_data_latency[OF h] obtain x l where
    xl: "exchange_latency data received = Inr (x, l)" "web ''latency'' = Some l" by blast
  note el = exchange_latency_int[OF xl(1)]
  { assume "data ''E'' = None"
    with el xl(2) show "web ''latency'' = Some PNone" by simp }
  { assume "data ''E'' = Some (PInt e)"
    with el xl(2) show "web ''latency'' = Some (if received - e < 10000 then PInt (received - e) else PNone)"
      by simp }
next
  assume "format_message pystr process_time message = Inr formatted"
    "dict_get_or message ''received_timestamp'' (PInt process_time) = PInt r"
    "if message ''bid_price'' \<noteq> None \<and> message ''ask_price'' \<noteq> None
         then dict_get message ''latency'' = PNone \<and> message ''exchange_time'' = Some (PInt e')
         else message ''E'' = Some (PInt e')"
  then show "formatted ''backendLatency'' = Some (if r - e' < 10000 then PInt (r - e') else PNone)"
    by (rule format_message_computed)
qed

theorem latency_below_bound_witness:
  "map_sum id (\<lambda>d. d ''latency'')
     (MessageProcessor_handle_bbo_data Inr (\<lambda>a b. PStr ''0.10'') ''BTCUSDT'' (raw_bbo 900) 1000)
   = Inr (Some (PInt 100))
   \<and> map_sum id (\<lambda>d. d ''backendLatency'') (format_message (\<lambda>v. v) 1000 (raw_bbo 900))
   = Inr (Some (PInt 100))"
proof -
  obtain web where w: "MessageProcessor_handle_bbo_data Inr (\<lambda>a b. PStr ''0.10'') ''BTCUSDT'' (raw_bbo 900) 1000 = Inr web"
    by (simp add: raw_bbo_handled)
  obtain formatted where f: "format_message (\<lambda>v. v) 1000 (raw_bbo 900) = Inr formatted"
    by (simp add: format_message_def calculate_latency_def raw_bbo_def dict_get_def
        dict_get_or_def Let_def)
  have e: "raw_bbo 900 ''E'' = Some (PInt 900)"
    "dict_get_or (raw_bbo 900) ''received_timestamp'' (PInt 1000) = PInt 1000"
    "raw_bbo 900 ''bid_price'' = None"
    by (simp_all add: raw_bbo_def dict_get_or_def)
  from latency_below_bound[of Inr "\<lambda>a b. PStr ''0.10''" "''BTCUSDT''" "raw_bbo 900" 1000 web 900
      "\<lambda>v. v" 1000 "raw_bbo 900" formatted 1000 900] w f e
  show ?thesis by simp
qed

subsection \<open>Records returned by a query\<close>

lemma set_py_slice_from: "set (py_slice_from i xs) \<subseteq> set xs"
  by (simp add: py_slice_from_def Let_def set_drop_subset)

lemma set_py_slice: "set (py_slice a b xs) \<subseteq> set xs"
proof -
  have "set (take (b - a) (drop a xs)) \<subseteq> set (drop a xs)" by (rule set_take_subset)
  also have "\<dots> \<subseteq> set xs" by (rule set_drop_subset)
  finally show ?thesis by (simp add: py_slice_def)
qed

lemma get_updates_refs:
  assumes "get_updates c symbol s e l = Inr refs"
  shows "set refs \<subseteq> set (series c symbol)"
proof (cases "map_of (updates c) symbol")
  case None
  with assms show ?thesis by (simp add: get_updates_def)
next
  case (Some us)
  then have us: "series c symbol = us" by (simp add: series_def dd_get_def)
  show ?thesis
  proof (cases "s = None \<and> e = None")
    case True
    with assms Some us set_py_slice_from[of _ us] show ?thesis
      by (auto simp: get_updates_def split: option.splits)
  next
    case False
    with assms Some obtain a b where
      r: "refs = py_slice a b us \<or> (\<exists>i. refs = py_slice_from i (py_slice a b us))"
      by (auto simp: get_updates_def Let_def split: option.splits sum.splits if_splits)
    from r show ?thesis
    proof
      assume "refs = py_slice a b us"
      with set_py_slice[of a b us] us show ?thesis by simp
    next
      assume "\<exists>i. refs = py_slice_from i (py_slice a b us)"
      then obtain i where "refs = py_slice_from i (py_slice a b us)" by blast
      with set_py_slice_from[of i "py_slice a b us"] set_py_slice[of a b us] us
      show ?thesis by auto
    qed
  qed
qed

lemma same_but_formatted_refl: "same_but_formatted h h"
  by (simp add: same_but_formatted_def)

lemma same_but_formatted_trans:
  "same_but_formatted h h1 \<Longrightarrow> same_but_formatted h1 h2 \<Longrightarrow> same_but_formatted h h2"
  by (simp add: same_but_formatted_def)

lemma same_but_formatted_step:
  "h r = Some u \<Longrightarrow> same_but_formatted h (h(r \<mapsto> u(''timestamp_formatted'' \<mapsto> s)))"
  by (simp add: same_but_formatted_def)

lemma format_timestamps_frame:
  "format_timestamps fmt h refs = (h', err) \<Longrightarrow> same_but_formatted h h'"
proof (induction refs arbitrary: h)
  case Nil
  then show ?case by (simp add: same_but_formatted_refl)
next
  case (Cons r refs)
  show ?case
  proof (cases "h r")
    case None
    with Cons show ?thesis by simp
  next
    case (Some u)
    show ?thesis
    proof (cases "u ''timestamp''")
      case None
      with Some Cons show ?thesis by simp
    next
      case st: (Some t)
      show ?thesis
      proof (cases "fmt t")
        case (Inl e)
        with Some st Cons.prems show ?thesis by (simp add: same_but_formatted_refl)
      next
        case (Inr s)
        with Some st Cons.prems
        have "format_timestamps fmt (h(r \<mapsto> u(''timestamp_formatted'' \<mapsto> s))) refs = (h', err)"
          by simp
        then have "same_but_formatted (h(r \<mapsto> u(''timestamp_formatted'' \<mapsto> s))) h'"
          by (rule Cons.IH)
        moreover have "same_but_formatted h (h(r \<mapsto> u(''timestamp_formatted'' \<mapsto> s)))"
          using Some by (rule same_but_formatted_step[of h r u s])
        ultimately show ?thesis
          by (rule same_but_formatted_trans[rotated])
      qed
    qed
  qed
qed

lemma api_get_updates_heap:
  assumes "api_get_updates fmt now h c symbol start_time end_time limit = (h', resp)"
  shows "h' = h \<or> (\<exists>refs err. format_timestamps fmt h refs = (h', err))"
  using assms
  by (auto simp: api_get_updates_def split: option.splits sum.splits if_splits prod.splits)


lemma shared_tick:
  "add_update_obj 0 ([0 \<mapsto> tick 1000], BBOCache 10) 0 =
     ([0 \<mapsto> tick 1000],
      \<lparr>updates = [(PStr ''BTCUSDT'', [0])],
       timestamps = [PStr ''BTCUSDT'' \<mapsto> [PInt 1000]],
       latency_stats = Map.empty, max_items = 10, insert_count = 1\<rparr>)"
  by (simp add: add_update_obj_def tick_fields add_update_unfold)

lemma shared_tick_formatted:
  "api_get_updates fmt_example 2000 [0 \<mapsto> tick 1000]
     \<lparr>updates = [(PStr ''BTCUSDT'', [0])],
      timestamps = [PStr ''BTCUSDT'' \<mapsto> [PInt 1000]],
      latency_stats = Map.empty, max_items = 10, insert_count = 1\<rparr>
     (Some ''BTCUSDT'') None None None
   = ([0 \<mapsto> (tick 1000)(''timestamp_formatted'' \<mapsto> PStr ''19700101 00:00:01.000'')],
      Success [(tick 1000)(''timestamp_formatted'' \<mapsto> PStr ''19700101 00:00:01.000'')])"
  by (simp add: api_get_updates_def parse_arg_def parse_end_def get_updates_def dd_get_def
      bisect_left_stamps py_slice_def fmt_example_def deref_def tick_fields)

text \<open>
  Claim C8 says that a query returns copies, so that changing a returned record
  changes nothing a later \<open>get_updates\<close> returns, and that a stored record never
  changes. \<open>get_updates\<close> returns the stored objects in a new list, and the REST
  handler writes \<open>timestamp_formatted\<close> into them: the record read before the
  request has no such field, the same stored record read after it has one.
\<close>

theorem returned_record_is_stored_record:
  "map_sum id (\<lambda>refs. map (\<lambda>u. u ''timestamp_formatted'')
                         (deref (fst (add_update_obj 0 ([0 \<mapsto> tick 1000], BBOCache 10) 0)) refs))
     (get_updates (snd (add_update_obj 0 ([0 \<mapsto> tick 1000], BBOCache 10) 0))
        (PStr ''BTCUSDT'') None None None)
   = Inr [None]
   \<and> map_sum id (\<lambda>refs. map (\<lambda>u. u ''timestamp_formatted'')
        (deref (fst (api_get_updates fmt_example 2000
                       (fst (add_update_obj 0 ([0 \<mapsto> tick 1000], BBOCache 10) 0))
                       (snd (add_update_obj 0 ([0 \<mapsto> tick 1000], BBOCache 10) 0))
                       (Some ''BTCUSDT'') None None None)) refs))
     (get_updates (snd (add_update_obj 0 ([0 \<mapsto> tick 1000], BBOCache 10) 0))
        (PStr ''BTCUSDT'') None None None)
   = Inr [Some (PStr ''19700101 00:00:01.000'')]"
  unfolding shared_tick fst_conv snd_conv shared_tick_formatted
  by (simp add: get_updates_def deref_def tick_def)

text \<open>
  C8, amended. Every record a query returns is one of the stored record objects
  themselves, in a list of its own: a change made to a returned record is a change of
  the stored record and shows in every later query. The REST handler makes such a
  change, and only this one: it sets the field \<open>timestamp_formatted\<close> of records it
  got from the query; every other field of every record, and which records exist,
  stay as they were.
\<close>

theorem query_returns_stored_objects:
  "(get_updates c symbol s e l = Inr refs \<longrightarrow> set refs \<subseteq> set (series c symbol))
   \<and> (api_get_updates fmt now h c name start_time end_time limit = (h', resp) \<longrightarrow>
        same_but_formatted h h')"
proof (intro conjI impI)
  assume "get_updates c symbol s e l = Inr refs"
  then show "set refs \<subseteq> set (series c symbol)" by (rule get_updates_refs)
next
  assume "api_get_updates fmt now h c name start_time end_time limit = (h', resp)"
  from api_get_updates_heap[OF this] show "same_but_formatted h h'"
    by (auto simp: same_but_formatted_refl dest: format_timestamps_frame)
qed

theorem query_returns_stored_objects_witness:
  "set [0::nat] \<subseteq> set (series (snd (add_update_obj 0 ([0 \<mapsto> tick 1000], BBOCache 10) 0))
                           (PStr ''BTCUSDT''))
   \<and> map_option (\<lambda>u. u ''timestamp'')
        (fst (api_get_updates fmt_example 2000
                (fst (add_update_obj 0 ([0 \<mapsto> tick 1000], BBOCache 10) 0))
                (snd (add_update_obj 0 ([0 \<mapsto> tick 1000], BBOCache 10) 0))
                (Some ''BTCUSDT'') None None None) 0)
       = Some (Some (PInt 1000))"
proof -
  let ?hc = "add_update_obj 0 ([0 \<mapsto> tick 1000], BBOCache 10) 0"
  let ?r = "api_get_updates fmt_example 2000 (fst ?hc) (snd ?hc) (Some ''BTCUSDT'') None None None"
  have g: "get_updates (snd ?hc) (PStr ''BTCUSDT'') None None None = Inr [0]"
    unfolding shared_tick by (simp add: get_updates_def)
  have a: "?r = (fst ?r, snd ?r)" by simp
  have h0: "fst ?hc 0 = Some (tick 1000)" unfolding shared_tick by simp
  have "set [0::nat] \<subseteq> set (series (snd ?hc) (PStr ''BTCUSDT''))"
    by (rule query_returns_stored_objects[THEN conjunct1, rule_format, OF g])
  moreover have sf: "same_but_formatted (fst ?hc) (fst ?r)"
    by (rule query_returns_stored_objects[THEN conjunct2, rule_format, OF a])
  moreover from sf have "map_option (\<lambda>u. u ''timestamp'') (fst ?r 0)
                         = map_option (\<lambda>u. u ''timestamp'') (fst ?hc 0)"
    by (simp add: same_but_formatted_def)
  ultimately show ?thesis by (simp add: h0 tick_fields)
qed

subsection \<open>Reading integers from strings\<close>

lemma py_int_examples:
  "py_int (PStr ''1500'') = Inr (PInt 1500)"
  "py_int (PStr '' -1_500 '') = Inr (PInt (- 1500))"
  "py_int (PStr [CHR 0xA0, CHR ''1'', CHR ''5'', CHR ''0'', CHR ''0'']) = Inr (PInt 1500)"
  "py_int (PStr [CHR 0x85, CHR ''7'', CHR 0x0A]) = Inr (PInt 7)"
  "py_int (PStr [CHR 0x1F, CHR ''1'', CHR ''2'']) = Inl ValueError"
  "py_int (PStr [CHR 0x1C, CHR ''1'', CHR ''2'']) = Inl ValueError"
  "py_int (PStr ''1__2'') = Inl ValueError"
  "py_int (PStr ''12_'') = Inl ValueError"
  "py_int (PStr ''- 12'') = Inl ValueError"
  "py_int (PStr ''12.5'') = Inl ValueError"
  "py_int (PStr '''') = Inl ValueError"
  by (simp_all add: int_of_string_def literal_value_def max_str_digits_def is_space_def
      is_digit_def)

lemma py_int_digit_limit:
  assumes "4300 < n"
  shows "py_int (PStr (replicate n CHR ''1'')) = Inl ValueError"
proof -
  from assms obtain m where n: "n = Suc m" by (cases n) simp_all
  have c: "\<not> is_space CHR ''1''" "is_digit CHR ''1''" by (simp_all add: is_space_def is_digit_def)
  then have t: "rev (dropWhile is_space (rev (dropWhile is_space (replicate n CHR ''1''))))
             = CHR ''1'' # replicate m CHR ''1''"
    by (simp add: n del: replicate_Suc) simp
  have "literal_value (CHR ''1'' # replicate m CHR ''1'') = None"
    using assms c(2) by (simp add: literal_value_def max_str_digits_def n)
  then show ?thesis
    unfolding py_int.simps int_of_string_def t by simp
qed


subsection \<open>Ordering\<close>

lemma add_update_series_cases:
  assumes "int_stamped now u" "\<forall>s. series_ok c s"
  shows "series (add_update now c u) symbol
         = (if admitted_for symbol (now, u) \<and> \<not> blocked c symbol
            then list_insert
                   (insert_pos (evicted (max_items c) (stamps c symbol))
                      (stamp_of (stored_record (now, u))))
                   (stored_record (now, u)) (evicted (max_items c) (series c symbol))
            else series c symbol)"
proof (cases "admission now u")
  case None
  then show ?thesis by (simp add: add_update_rejected admitted_for_def)
next
  case (Some a)
  obtain s t u' where a: "a = (s, t, u')" by (cases a)
  from assms(1) Some a have "is_int t" by (simp add: int_stamped_def)
  then obtain x where t: "t = PInt x" by (cases t) simp_all
  from Some a t have adm: "admission now u = Some (s, PInt x, u')" by simp
  from assms(2) have ok: "series_ok c s" by simp
  note v = add_update_view(1)[OF adm ok]
  show ?thesis
  proof (cases "s = symbol")
    case True
    from adm True have af: "admitted_for symbol (now, u)" by (simp add: admitted_for_def)
    from adm have sr: "stored_record (now, u) = u'" by (simp add: stored_record_def)
    from admission_stamp[OF adm] have st: "stamp_of u' = x" by (simp add: stamp_of_def)
    show ?thesis
      by (cases "blocked c symbol") (simp_all add: v True af sr st)
  next
    case False
    with adm have af: "\<not> admitted_for symbol (now, u)" by (simp add: admitted_for_def)
    from False show ?thesis
      by (cases "blocked c s") (simp_all add: v af)
  qed
qed

lemma evicted_below: "int (length xs) < cap \<Longrightarrow> evicted cap xs = xs"
  by (simp add: evicted_def)

lemma series_accepted:
  assumes "list_all (\<lambda>(now, u). int_stamped now u) calls"
  shows "set (series (add_updates (BBOCache C) calls) symbol)
           \<subseteq> stored_record ` {k \<in> set calls. admitted_for symbol k}
         \<and> (int (length calls) \<le> C \<longrightarrow>
              (\<forall>P. length (filter P (series (add_updates (BBOCache C) calls) symbol))
                   = length (filter P (map stored_record (filter (admitted_for symbol) calls)))))"
  using assms
proof (induction calls rule: rev_induct)
  case Nil
  then show ?case by (simp add: BBOCache_view)
next
  case (snoc k calls)
  from snoc.prems have st: "list_all (\<lambda>(now, u). int_stamped now u) calls"
    "int_stamped (fst k) (snd k)"
    by (auto simp: list_all_iff)
  let ?c = "add_updates (BBOCache C) calls"
  let ?c' = "add_updates (BBOCache C) (calls @ [k])"
  let ?ins = "list_insert
                (insert_pos (evicted (max_items ?c) (stamps ?c symbol)) (stamp_of (stored_record k)))
                (stored_record k) (evicted (max_items ?c) (series ?c symbol))"
  from snoc.IH[OF st(1)] have sub: "set (series ?c symbol)
           \<subseteq> stored_record ` {k \<in> set calls. admitted_for symbol k}"
    and cnt: "int (length calls) \<le> C \<Longrightarrow>
              length (filter P (series ?c symbol))
              = length (filter P (map stored_record (filter (admitted_for symbol) calls)))" for P
    by blast+
  have ok: "\<forall>s. series_ok ?c s" using reachable_ok(1)[OF st(1)] by blast
  have mi: "max_items ?c = C" by (simp add: add_updates_max_items BBOCache_view)
  have step: "series ?c' symbol
              = (if admitted_for symbol k \<and> \<not> blocked ?c symbol then ?ins else series ?c symbol)"
    using add_update_series_cases[OF st(2) ok, of symbol] by (simp only: add_updates_snoc prod.collapse)
  have "set (series ?c' symbol) \<subseteq> stored_record ` {j \<in> set (calls @ [k]). admitted_for symbol j}"
  proof (cases "admitted_for symbol k \<and> \<not> blocked ?c symbol")
    case True
    then have "set (series ?c' symbol) \<subseteq> insert (stored_record k) (set (series ?c symbol))"
      using set_evicted[of "max_items ?c" "series ?c symbol"] by (auto simp: step set_list_insert)
    with sub True show ?thesis by auto
  next
    case False
    have "series ?c' symbol = series ?c symbol"
      unfolding step by (rule if_not_P[OF False])
    with sub show ?thesis by auto
  qed
  moreover have "length (filter P (series ?c' symbol))
                 = length (filter P (map stored_record (filter (admitted_for symbol) (calls @ [k]))))"
    if le: "int (length (calls @ [k])) \<le> C" for P
  proof -
    from le have le': "int (length calls) \<le> C" and lt: "int (length calls) < C" by simp_all
    from cnt[OF le', of "\<lambda>_. True"] have "length (series ?c symbol) \<le> length calls"
      by (simp add: le_trans[OF _ length_filter_le])
    with lt have room: "int (length (series ?c symbol)) < C" by simp
    then have nb: "\<not> blocked ?c symbol" by (simp add: blocked_def mi)
    from room have ev: "evicted (max_items ?c) (series ?c symbol) = series ?c symbol"
      by (simp add: mi evicted_below)
    show ?thesis
    proof (cases "admitted_for symbol k")
      case True
      with nb have "series ?c' symbol = ?ins" by (simp add: step)
      then show ?thesis using True cnt[OF le', of P] by (simp add: count_list_insert ev)
    next
      case False
      then show ?thesis using cnt[OF le', of P] by (simp add: step)
    qed
  qed
  ultimately show ?case by blast
qed

text \<open>
  C1: after any finite sequence of \<open>add_update\<close> calls on a new cache, in any order
  of arrival, \<open>get_updates\<close> for a symbol returns the stored series of that symbol, and
  the series is in non-decreasing timestamp order. Every record of it is the record
  stored by a call accepted for the symbol, and while the capacity is not exceeded it
  holds each accepted record as often as it was accepted. The timestamps the calls
  bring are integers (\<open>int_stamped\<close>); the capacity is arbitrary.
\<close>

theorem get_updates_sorted:
  assumes "list_all (\<lambda>(now, u). int_stamped now u) calls"
  shows "get_updates (add_updates (BBOCache C) calls) symbol None None None
           = Inr (series (add_updates (BBOCache C) calls) symbol)
         \<and> list_all (\<lambda>u. is_int (dict_get u ''timestamp''))
              (series (add_updates (BBOCache C) calls) symbol)
         \<and> sorted (map stamp_of (series (add_updates (BBOCache C) calls) symbol))
         \<and> set (series (add_updates (BBOCache C) calls) symbol)
             \<subseteq> stored_record ` {k \<in> set calls. admitted_for symbol k}
         \<and> (int (length calls) \<le> C \<longrightarrow>
              (\<forall>P. length (filter P (series (add_updates (BBOCache C) calls) symbol))
                   = length (filter P (map stored_record (filter (admitted_for symbol) calls)))))"
proof -
  let ?c = "add_updates (BBOCache C) calls"
  note ok = reachable_ok[OF assms, of C symbol]
  from ok(2) have m: "map (\<lambda>u. dict_get u ''timestamp'') (series ?c symbol) = stamps ?c symbol"
    by (simp add: records_match_def)
  from ok(1) have "list_all is_int (map (\<lambda>u. dict_get u ''timestamp'') (series ?c symbol))"
    "sorted (map int_val (map (\<lambda>u. dict_get u ''timestamp'') (series ?c symbol)))"
    unfolding m by (simp_all add: series_ok_def)
  then have "list_all (\<lambda>u. is_int (dict_get u ''timestamp'')) (series ?c symbol)"
    "sorted (map stamp_of (series ?c symbol))"
    by (simp_all add: list_all_iff o_def stamp_of_def[abs_def])
  with series_accepted[OF assms, of C symbol] show ?thesis
    by (simp only: get_updates_all) blast
qed

theorem get_updates_sorted_witness:
  "list_all (\<lambda>(now, u). int_stamped now u) [(0, tick 1000), (0, tick 3000), (0, tick 2000)]
   \<and> get_updates (add_updates (BBOCache 10) [(0, tick 1000), (0, tick 3000), (0, tick 2000)])
        (PStr ''BTCUSDT'') None None None = Inr [tick 1000, tick 2000, tick 3000]
   \<and> sorted (map stamp_of [tick 1000, tick 2000, tick 3000])
   \<and> set [tick 1000, tick 2000, tick 3000]
       \<subseteq> stored_record ` {k \<in> set [(0, tick 1000), (0, tick 3000), (0, tick 2000)].
                             admitted_for (PStr ''BTCUSDT'') k}"
proof -
  have h: "list_all (\<lambda>(now, u). int_stamped now u)
             [(0, tick 1000), (0, tick 3000), (0, tick 2000)]"
    by (simp add: int_stamped_def admission_def tick_fields dict_get_def)
  have v: "series (add_updates (BBOCache 10) [(0, tick 1000), (0, tick 3000), (0, tick 2000)])
             (PStr ''BTCUSDT'') = [tick 1000, tick 2000, tick 3000]"
    unfolding three_ticks by (simp add: series_def dd_get_def)
  from get_updates_sorted[OF h, of 10 "PStr ''BTCUSDT''"] h show ?thesis
    unfolding v by blast
qed

subsection \<open>Throttling\<close>

lemma format_quote: "format_message (\<lambda>v. v) p (quote_msg t) = Inr (quote_sent t p)"
  by (simp add: format_message_def quote_msg_def quote_sent_def dict_get_def dict_get_or_def)


lemmas loop_unfold =
  MessageQueueProcessor_def MessageQueueProcessor_start_def
  broadcast_message_def process_iteration_def handle_message_def task_done_def
  flush_throttled_def format_quote Let_def






text \<open>
  When the first message of a batch passes the throttle, every message of the batch
  is sent: line 223 tests the time since the last send as it was before the batch.
  Five records queued together are sent at one instant.
\<close>

lemma batch_sent_at_once:
  "emitted (run (\<lambda>v. v) (MessageQueueProcessor_start MessageQueueProcessor)
     [Enqueue (Dict (quote_msg 1)), Enqueue (Dict (quote_msg 2)), Enqueue (Dict (quote_msg 3)),
      Enqueue (Dict (quote_msg 4)), Enqueue (Dict (quote_msg 5)), Iterate 1000 1000 1000])
   = [quote_sent 1 1000, quote_sent 2 1000, quote_sent 3 1000, quote_sent 4 1000,
      quote_sent 5 1000]"
  by (simp add: loop_unfold)





end
